theory Spec2Isabelle
  imports Main "HOL-Library.Multiset" "HOL-Library.List_Lexorder" "HOL-Library.Char_ord"
    "HOL-Library.Product_Lexorder"
begin

chapter \<open>Star-battle entanglement calculator: enumerator, analyzer, canonicalizer, miners\<close>

text \<open>
  Numbers of the TypeScript source are modelled as \<^typ>\<open>int\<close> (coordinates, which the
  D4 transforms negate) or \<^typ>\<open>nat\<close> (board sizes, counts, grid entries, indices).
  Exceptions are values of the type \<open>error\<close>; a function that can throw returns
  \<open>error + 'a\<close>.
\<close>

datatype error = Error string | TypeError | SyntaxError

section \<open>JavaScript built-ins used by the source\<close>

subsection \<open>\<open>Array.prototype.sort\<close> with a comparator\<close>

text \<open>
  \<open>xs.sort(cmp)\<close> is stable: an element goes before a later one exactly when the
  comparator does not put it after. The model is the stable insertion sort.
\<close>

fun insert_by :: "('a \<Rightarrow> 'a \<Rightarrow> int) \<Rightarrow> 'a \<Rightarrow> 'a list \<Rightarrow> 'a list" where
  "insert_by cmp x [] = [x]"
| "insert_by cmp x (y # ys) = (if cmp x y \<le> 0 then x # y # ys else y # insert_by cmp x ys)"

definition sort_by :: "('a \<Rightarrow> 'a \<Rightarrow> int) \<Rightarrow> 'a list \<Rightarrow> 'a list" where
  "sort_by cmp xs = foldr (insert_by cmp) xs []"

subsection \<open>\<open>JSON.stringify\<close> and \<open>JSON.parse\<close> on integers, strings and arrays\<close>

datatype json = JNum int | JStr string | JArr "json list"

definition digit_char :: "nat \<Rightarrow> char" where
  "digit_char d = char_of (48 + d)"

fun show_nat :: "nat \<Rightarrow> string" where
  "show_nat n = (if n < 10 then [digit_char n] else show_nat (n div 10) @ [digit_char (n mod 10)])"

declare show_nat.simps [simp del]

definition show_int :: "int \<Rightarrow> string" where
  "show_int i = (if i < 0 then CHR ''-'' # show_nat (nat (- i)) else show_nat (nat i))"

fun join_comma :: "string list \<Rightarrow> string" where
  "join_comma [] = []"
| "join_comma [s] = s"
| "join_comma (s # t # ss) = s @ CHR '','' # join_comma (t # ss)"

text \<open>
  The strings the source stringifies are keys built from digits, brackets, commas and
  minus signs; \<open>quote\<close> escapes the two characters JSON escapes among printable ASCII.
\<close>

fun escape :: "string \<Rightarrow> string" where
  "escape [] = []"
| "escape (c # cs) =
     (if c = CHR 0x22 \<or> c = CHR 0x5C then CHR 0x5C # c # escape cs else c # escape cs)"

definition quote :: "string \<Rightarrow> string" where
  "quote s = CHR 0x22 # escape s @ [CHR 0x22]"

fun JSON_stringify :: "json \<Rightarrow> string" where
  "JSON_stringify (JNum i) = show_int i"
| "JSON_stringify (JStr s) = quote s"
| "JSON_stringify (JArr vs) = CHR ''['' # join_comma (map JSON_stringify vs) @ '']''"

definition is_digit :: "char \<Rightarrow> bool" where
  "is_digit c = (48 \<le> (of_char c :: nat) \<and> (of_char c :: nat) \<le> 57)"

definition digit_val :: "char \<Rightarrow> nat" where
  "digit_val c = of_char c - 48"

fun parse_digits :: "string \<Rightarrow> nat \<Rightarrow> nat \<times> string" where
  "parse_digits [] acc = (acc, [])"
| "parse_digits (c # cs) acc =
     (if is_digit c then parse_digits cs (acc * 10 + digit_val c) else (acc, c # cs))"

fun parse_string :: "string \<Rightarrow> (string \<times> string) option" where
  "parse_string [] = None"
| "parse_string (c # cs) =
     (if c = CHR 0x22 then Some ([], cs)
      else if c = CHR 0x5C then
        (case cs of [] \<Rightarrow> None
         | d # ds \<Rightarrow> map_option (\<lambda>(s, r). (d # s, r)) (parse_string ds))
      else map_option (\<lambda>(s, r). (c # s, r)) (parse_string cs))"

text \<open>
  A recursive-descent reader of the fragment; the first argument bounds the recursion
  depth by the length of the text.
\<close>

fun parse_value :: "nat \<Rightarrow> string \<Rightarrow> (json \<times> string) option"
  and parse_elems :: "nat \<Rightarrow> string \<Rightarrow> (json list \<times> string) option" where
  "parse_value 0 s = None"
| "parse_value (Suc n) [] = None"
| "parse_value (Suc n) (c # cs) =
     (if c = CHR ''['' then
        (case cs of
           [] \<Rightarrow> None
         | d # ds \<Rightarrow>
             if d = CHR '']'' then Some (JArr [], ds)
             else map_option (\<lambda>(vs, r). (JArr vs, r)) (parse_elems n cs))
      else if c = CHR 0x22 then map_option (\<lambda>(s, r). (JStr s, r)) (parse_string cs)
      else if c = CHR ''-'' then
        (case cs of
           [] \<Rightarrow> None
         | d # ds \<Rightarrow>
             if is_digit d then (case parse_digits cs 0 of (k, r) \<Rightarrow> Some (JNum (- int k), r))
             else None)
      else if is_digit c then (case parse_digits (c # cs) 0 of (k, r) \<Rightarrow> Some (JNum (int k), r))
      else None)"
| "parse_elems 0 s = None"
| "parse_elems (Suc n) s =
     (case parse_value n s of
        None \<Rightarrow> None
      | Some (v, r) \<Rightarrow>
          (case r of
             [] \<Rightarrow> None
           | d # ds \<Rightarrow>
               if d = CHR '','' then map_option (\<lambda>(vs, r'). (v # vs, r')) (parse_elems n ds)
               else if d = CHR '']'' then Some ([v], ds)
               else None))"

definition JSON_parse :: "string \<Rightarrow> error + json" where
  "JSON_parse s =
     (case parse_value (Suc (length s)) s of
        Some (v, []) \<Rightarrow> Inr v
      | _ \<Rightarrow> Inl SyntaxError)"

subsection \<open>Reading back what was written\<close>

lemma is_digit_digit_char: "d < 10 \<Longrightarrow> is_digit (digit_char d)"
  by (simp add: is_digit_def digit_char_def)

lemma digit_val_digit_char: "d < 10 \<Longrightarrow> digit_val (digit_char d) = d"
  by (simp add: digit_val_def digit_char_def)

lemma show_nat_digits: "\<forall>c\<in>set (show_nat n). is_digit c"
proof (induction n rule: show_nat.induct)
  case (1 n)
  show ?case
  proof (cases "n < 10")
    case True
    then show ?thesis
      by (simp add: show_nat.simps [of n] is_digit_digit_char)
  next
    case False
    then have "\<forall>c\<in>set (show_nat (n div 10)). is_digit c"
      using "1.IH" by simp
    with False show ?thesis
      by (simp add: show_nat.simps [of n] is_digit_digit_char)
  qed
qed

lemma show_nat_nonempty: "show_nat n \<noteq> []"
  by (simp add: show_nat.simps [of n])

lemma parse_digits_append:
  "\<forall>c\<in>set ds. is_digit c \<Longrightarrow>
   parse_digits (ds @ rest) acc =
     parse_digits rest (foldl (\<lambda>a c. a * 10 + digit_val c) acc ds)"
  by (induction ds arbitrary: acc) simp_all

lemma parse_digits_stop: "rest = [] \<or> \<not> is_digit (hd rest) \<Longrightarrow> parse_digits rest acc = (acc, rest)"
  by (cases rest) auto

lemma foldl_show_nat: "foldl (\<lambda>a c. a * 10 + digit_val c) 0 (show_nat n) = n"
proof (induction n rule: show_nat.induct)
  case (1 n)
  show ?case
  proof (cases "n < 10")
    case True
    then show ?thesis
      by (simp add: show_nat.simps [of n] digit_val_digit_char)
  next
    case False
    then have "foldl (\<lambda>a c. a * 10 + digit_val c) 0 (show_nat (n div 10)) = n div 10"
      using "1.IH" by simp
    with False show ?thesis
      by (simp add: show_nat.simps [of n] digit_val_digit_char)
  qed
qed

lemma parse_digits_show_nat:
  "rest = [] \<or> \<not> is_digit (hd rest) \<Longrightarrow> parse_digits (show_nat n @ rest) 0 = (n, rest)"
  by (simp add: parse_digits_append show_nat_digits foldl_show_nat parse_digits_stop)

lemma parse_string_escape: "parse_string (escape s @ CHR 0x22 # rest) = Some (s, rest)"
  by (induction s) auto

lemma hd_show_nat_digit: "is_digit (hd (show_nat n))"
  using show_nat_digits [of n] show_nat_nonempty [of n] by (cases "show_nat n") auto

lemma not_digit_chars:
  "\<not> is_digit (CHR ''['')" "\<not> is_digit (CHR '']'')" "\<not> is_digit (CHR '','')"
  "\<not> is_digit (CHR ''-'')" "\<not> is_digit (CHR 0x22)"
  by (simp_all add: is_digit_def)

lemma parse_value_num:
  assumes "rest = [] \<or> \<not> is_digit (hd rest)"
  shows "parse_value (Suc n) (show_int i @ rest) = Some (JNum i, rest)"
proof (cases "i < 0")
  case True
  obtain d ds where ds: "show_nat (nat (- i)) = d # ds"
    using show_nat_nonempty [of "nat (- i)"] by (cases "show_nat (nat (- i))") auto
  have dd: "is_digit d"
    using hd_show_nat_digit [of "nat (- i)"] ds by simp
  have "parse_digits ((d # ds) @ rest) 0 = (nat (- i), rest)"
    using parse_digits_show_nat [OF assms, of "nat (- i)"] ds by simp
  then have pd: "parse_digits (d # ds @ rest) 0 = (nat (- i), rest)"
    by simp
  have "parse_value (Suc n) (CHR ''-'' # d # ds @ rest) = Some (JNum (- int (nat (- i))), rest)"
    unfolding parse_value.simps using dd pd by (simp add: not_digit_chars)
  with True ds show ?thesis
    by (simp add: show_int_def)
next
  case False
  obtain d ds where ds: "show_nat (nat i) = d # ds"
    using show_nat_nonempty [of "nat i"] by (cases "show_nat (nat i)") auto
  have dd: "is_digit d"
    using hd_show_nat_digit [of "nat i"] ds by simp
  have "parse_digits ((d # ds) @ rest) 0 = (nat i, rest)"
    using parse_digits_show_nat [OF assms, of "nat i"] ds by simp
  then have pd: "parse_digits (d # ds @ rest) 0 = (nat i, rest)"
    by simp
  have d1: "d \<noteq> CHR ''[''" "d \<noteq> CHR 0x22" "d \<noteq> CHR ''-''"
    using dd not_digit_chars by auto
  have "parse_value (Suc n) (d # ds @ rest) = Some (JNum (int (nat i)), rest)"
    unfolding parse_value.simps using dd pd d1 by simp
  with False ds show ?thesis
    by (simp add: show_int_def)
qed

lemma stringify_nonempty: "JSON_stringify v \<noteq> []"
  by (cases v) (simp_all add: show_int_def show_nat_nonempty quote_def)

lemma hd_stringify: "hd (JSON_stringify v) \<noteq> CHR '']''"
proof (cases v)
  case (JNum i)
  have "hd (show_int i) = CHR ''-'' \<or> is_digit (hd (show_int i))"
    using hd_show_nat_digit by (simp add: show_int_def)
  then show ?thesis
    using JNum not_digit_chars by auto
qed (simp_all add: quote_def)

lemma parse_elems_join:
  assumes P: "\<And>v n rest. v \<in> set vs \<Longrightarrow> length (JSON_stringify v) \<le> n \<Longrightarrow>
      rest = [] \<or> \<not> is_digit (hd rest) \<Longrightarrow>
      parse_value (Suc n) (JSON_stringify v @ rest) = Some (v, rest)"
    and "vs \<noteq> []"
    and "length (join_comma (map JSON_stringify vs)) + 2 \<le> n"
  shows "parse_elems n (join_comma (map JSON_stringify vs) @ CHR '']'' # rest) = Some (vs, rest)"
  using assms
proof (induction vs arbitrary: n)
  case Nil
  then show ?case by simp
next
  case (Cons v vs)
  from Cons.prems(3) obtain m where n: "n = Suc m"
    by (cases n) auto
  show ?case
  proof (cases vs)
    case Nil
    have len: "length (JSON_stringify v) \<le> m - 1" and m: "m = Suc (m - 1)"
      using Cons.prems(3) n Nil by auto
    have "parse_value (Suc (m - 1)) (JSON_stringify v @ CHR '']'' # rest)
        = Some (v, CHR '']'' # rest)"
      by (rule Cons.prems(1)) (use len not_digit_chars in auto)
    with m have "parse_value m (JSON_stringify v @ CHR '']'' # rest) = Some (v, CHR '']'' # rest)"
      by simp
    with n Nil show ?thesis by simp
  next
    case (Cons w ws)
    let ?tl = "join_comma (map JSON_stringify vs)"
    have len: "length (JSON_stringify v) \<le> m - 1" and m: "m = Suc (m - 1)"
      and len2: "length ?tl + 2 \<le> m"
      using Cons.prems(3) n Cons stringify_nonempty [of v]
      by (auto simp: Suc_le_eq)
    have "parse_value (Suc (m - 1)) (JSON_stringify v @ CHR '','' # ?tl @ CHR '']'' # rest)
        = Some (v, CHR '','' # ?tl @ CHR '']'' # rest)"
      by (rule Cons.prems(1)) (use len not_digit_chars in auto)
    with m have pv: "parse_value m (JSON_stringify v @ CHR '','' # ?tl @ CHR '']'' # rest)
        = Some (v, CHR '','' # ?tl @ CHR '']'' # rest)"
      by simp
    have pe: "parse_elems m (?tl @ CHR '']'' # rest) = Some (vs, rest)"
      by (rule Cons.IH) (use Cons.prems(1) len2 Cons in auto)
    from n Cons pv pe show ?thesis by simp
  qed
qed

lemma parse_value_stringify:
  "length (JSON_stringify v) \<le> n \<Longrightarrow> rest = [] \<or> \<not> is_digit (hd rest) \<Longrightarrow>
   parse_value (Suc n) (JSON_stringify v @ rest) = Some (v, rest)"
proof (induction v arbitrary: n rest)
  case (JNum i)
  then show ?case by (simp add: parse_value_num)
next
  case (JStr s)
  then show ?case by (simp add: quote_def parse_string_escape)
next
  case (JArr vs)
  show ?case
  proof (cases vs)
    case Nil
    then show ?thesis by simp
  next
    case (Cons w ws)
    let ?j = "join_comma (map JSON_stringify vs)"
    have ne: "?j \<noteq> []"
      using Cons stringify_nonempty [of w] by (cases ws) auto
    then obtain d ds where j: "?j = d # ds"
      by (cases ?j) auto
    have "hd ?j = hd (JSON_stringify w)"
      using Cons stringify_nonempty [of w] by (cases ws) auto
    then have d: "d \<noteq> CHR '']''"
      using j hd_stringify [of w] by simp
    have "parse_elems n (?j @ CHR '']'' # rest) = Some (vs, rest)"
    proof (rule parse_elems_join)
      show "vs \<noteq> []" using Cons by simp
      show "length ?j + 2 \<le> n" using JArr.prems(1) by simp
    qed (use JArr.IH in auto)
    then have "parse_elems n (d # ds @ CHR '']'' # rest) = Some (vs, rest)"
      using j by simp
    then have "parse_value (Suc n) (CHR ''['' # d # ds @ CHR '']'' # rest) = Some (JArr vs, rest)"
      using d by simp
    then show ?thesis
      using j by simp
  qed
qed

lemma JSON_parse_stringify: "JSON_parse (JSON_stringify v) = Inr v"
  using parse_value_stringify [of v "length (JSON_stringify v)" "[]"]
  by (simp add: JSON_parse_def)

lemma JSON_stringify_inj:
  assumes "JSON_stringify v = JSON_stringify w"
  shows "v = w"
proof -
  have "JSON_parse (JSON_stringify v) = JSON_parse (JSON_stringify w)"
    using assms by (rule arg_cong)
  then show ?thesis
    by (simp only: JSON_parse_stringify sum.inject)
qed

section \<open>Canonicalizer: D4 symmetry and translation\<close>

type_synonym Point = "int \<times> int"

text \<open>A \<open>Point\<close> is the array \<open>[row, col]\<close>; this is how \<open>JSON.stringify\<close> sees it.\<close>

definition json_of_point :: "Point \<Rightarrow> json" where
  "json_of_point p = JArr [JNum (fst p), JNum (snd p)]"

definition json_of_points :: "Point list \<Rightarrow> json" where
  "json_of_points ps = JArr (map json_of_point ps)"

fun point_of_json :: "json \<Rightarrow> Point option" where
  "point_of_json (JArr [JNum r, JNum c]) = Some (r, c)"
| "point_of_json _ = None"

fun those_points :: "json list \<Rightarrow> Point list option" where
  "those_points [] = Some []"
| "those_points (v # vs) =
     (case point_of_json v of
        None \<Rightarrow> None
      | Some p \<Rightarrow> (case those_points vs of None \<Rightarrow> None | Some ps \<Rightarrow> Some (p # ps)))"

fun points_of_json :: "json \<Rightarrow> Point list option" where
  "points_of_json (JArr vs) = those_points vs"
| "points_of_json _ = None"

definition transforms :: "(int \<Rightarrow> int \<Rightarrow> Point) list" where
  "transforms =
     [\<lambda>r c. (r, c), \<lambda>r c. (- r, c), \<lambda>r c. (r, - c), \<lambda>r c. (- r, - c),
      \<lambda>r c. (c, r), \<lambda>r c. (- c, r), \<lambda>r c. (c, - r), \<lambda>r c. (- c, - r)]"

text \<open>The comparator \<open>(a, b) => a[0] - b[0] || a[1] - b[1]\<close>.\<close>

definition cmpPoint :: "Point \<Rightarrow> Point \<Rightarrow> int" where
  "cmpPoint a b = (if fst a - fst b \<noteq> 0 then fst a - fst b else snd a - snd b)"

record CanonicalizationResult =
  canonicalStars :: "Point list"
  transformIndex :: nat
  translation :: Point

record CanonicalPattern = CanonicalizationResult +
  canonicalCells :: "Point list"

subsection \<open>\<open>canonicalize\<close>: any number of stars, with accompanying cells\<close>

record canon_state =
  bestStars :: "Point list option"
  bestCells :: "Point list"
  bestTransformIndex :: nat
  bestTranslation :: Point
  bestKey :: string

definition canonicalize_body :: "Point list \<Rightarrow> Point list \<Rightarrow> canon_state \<Rightarrow> nat \<Rightarrow> canon_state" where
  "canonicalize_body pointsStars pointsCells st t =
     (let tf = transforms ! t;
          sT = map (\<lambda>star. tf (fst star) (snd star)) pointsStars;
          cT = map (\<lambda>cell. tf (fst cell) (snd cell)) pointsCells;
          minRow = min_list (map fst sT);
          minCol = min_list (map snd sT);
          shift = (\<lambda>p. (fst p - minRow, snd p - minCol));
          sN = sort_by cmpPoint (map shift sT);
          cN = sort_by cmpPoint (map shift cT);
          key = JSON_stringify (json_of_points sN)
      in if bestStars st = None \<or> key < bestKey st
         then \<lparr>bestStars = Some sN, bestCells = cN, bestTransformIndex = t,
               bestTranslation = (minRow, minCol), bestKey = key\<rparr>
         else st)"

definition canonicalize :: "Point list \<Rightarrow> Point list \<Rightarrow> error + CanonicalPattern" where
  "canonicalize pointsStars pointsCells =
     (if length pointsStars = 0 then Inl (Error ''canonicalize expects at least one star'')
      else
        let st = foldl (canonicalize_body pointsStars pointsCells)
                   \<lparr>bestStars = None, bestCells = [], bestTransformIndex = 0,
                    bestTranslation = (0, 0), bestKey = []\<rparr>
                   [0..<length transforms]
        in case bestStars st of
             None \<Rightarrow> Inl (Error ''Failed to canonicalize stars'')
           | Some bs \<Rightarrow>
               Inr \<lparr>canonicalStars = bs, transformIndex = bestTransformIndex st,
                    translation = bestTranslation st, canonicalCells = bestCells st\<rparr>)"

subsection \<open>\<open>canonicalizeStars\<close> and \<open>canonicalizeEmpties\<close>: the star-pair extractor\<close>

definition canonicalizeStars_body ::
  "Point \<Rightarrow> Point \<Rightarrow> CanonicalizationResult option \<times> string \<Rightarrow> nat \<Rightarrow>
   CanonicalizationResult option \<times> string" where
  "canonicalizeStars_body star1 star2 st i =
     (let transform = transforms ! i;
          t1 = transform (fst star1) (snd star1);
          t2 = transform (fst star2) (snd star2);
          minRow = min (fst t1) (fst t2);
          minCol = min (snd t1) (snd t2);
          p1 = (fst t1 - minRow, snd t1 - minCol);
          p2 = (fst t2 - minRow, snd t2 - minCol);
          sortedPair = (if fst p1 < fst p2 \<or> (fst p1 = fst p2 \<and> snd p1 < snd p2)
                        then [p1, p2] else [p2, p1]);
          key = JSON_stringify (json_of_points sortedPair)
      in if fst st = None \<or> key < snd st
         then (Some \<lparr>canonicalStars = sortedPair, transformIndex = i,
                     translation = (minRow, minCol)\<rparr>, key)
         else st)"

definition canonicalizeStars :: "Point list \<Rightarrow> error + CanonicalizationResult" where
  "canonicalizeStars initialStars =
     (if length initialStars \<noteq> 2 then Inl (Error ''canonicalizeStars expects exactly 2 stars'')
      else
        case fst (foldl (canonicalizeStars_body (initialStars ! 0) (initialStars ! 1))
                    (None, []) [0..<length transforms]) of
          None \<Rightarrow> Inl (Error ''Failed to canonicalize stars'')
        | Some bestResult \<Rightarrow> Inr bestResult)"

text \<open>
  \<open>transforms[transformIndex]\<close> is \<open>undefined\<close> beyond the table, and calling it is a
  \<open>TypeError\<close> (raised at the first cell mapped).
\<close>

definition canonicalizeEmpties :: "Point list \<Rightarrow> nat \<Rightarrow> Point \<Rightarrow> error + Point list" where
  "canonicalizeEmpties forcedEmpty transformIndex' translation' =
     (if \<not> transformIndex' < length transforms \<and> forcedEmpty \<noteq> [] then Inl TypeError
      else
        let transform = transforms ! transformIndex';
            minRow = fst translation';
            minCol = snd translation'
        in Inr (sort_by cmpPoint
                  (map (\<lambda>p. let t = transform (fst p) (snd p) in (fst t - minRow, snd t - minCol))
                     forcedEmpty)))"

subsection \<open>What one round of the loop computes\<close>

text \<open>
  Names for the values of one loop round: the image of a point under transform \<open>t\<close>,
  the minimum corner of the transformed stars, and the sorted, shifted image of a list
  of points.
\<close>

definition tfp :: "nat \<Rightarrow> Point \<Rightarrow> Point" where
  "tfp t p = (transforms ! t) (fst p) (snd p)"

definition corner :: "nat \<Rightarrow> Point list \<Rightarrow> Point" where
  "corner t S = (min_list (map fst (map (tfp t) S)), min_list (map snd (map (tfp t) S)))"

definition place :: "nat \<Rightarrow> Point list \<Rightarrow> Point list \<Rightarrow> Point list" where
  "place t S A =
     sort (map (\<lambda>p. (fst (tfp t p) - fst (corner t S), snd (tfp t p) - snd (corner t S))) A)"

definition roundKey :: "nat \<Rightarrow> Point list \<Rightarrow> string" where
  "roundKey t S = JSON_stringify (json_of_points (place t S S))"

definition round_state :: "nat \<Rightarrow> Point list \<Rightarrow> Point list \<Rightarrow> canon_state" where
  "round_state t S A =
     \<lparr>bestStars = Some (place t S S), bestCells = place t S A, bestTransformIndex = t,
      bestTranslation = corner t S, bestKey = roundKey t S\<rparr>"

lemma cmpPoint_le: "cmpPoint x y \<le> 0 \<longleftrightarrow> x \<le> y"
  by (cases x; cases y) (auto simp: cmpPoint_def less_eq_prod_def)

lemma insert_by_cmpPoint: "insert_by cmpPoint x ys = insort x ys"
  by (induction ys) (simp_all add: cmpPoint_le)

lemma sort_by_cmpPoint: "sort_by cmpPoint xs = sort xs"
  by (induction xs) (simp_all add: sort_by_def sort_key_def insert_by_cmpPoint)

lemma canonicalize_body_eq:
  "canonicalize_body S A st t =
     (if bestStars st = None \<or> roundKey t S < bestKey st then round_state t S A else st)"
  by (simp add: canonicalize_body_def round_state_def roundKey_def place_def corner_def tfp_def
      sort_by_cmpPoint Let_def o_def)

lemma fold_best:
  assumes "ts \<noteq> []"
  shows "\<exists>t\<in>set ts.
           foldl (canonicalize_body S A)
             \<lparr>bestStars = None, bestCells = [], bestTransformIndex = 0,
              bestTranslation = (0, 0), bestKey = []\<rparr> ts = round_state t S A
         \<and> (\<forall>u\<in>set ts. roundKey t S \<le> roundKey u S)"
  using assms
proof (induction ts rule: rev_induct)
  case Nil
  then show ?case by simp
next
  case (snoc x xs)
  let ?init = "\<lparr>bestStars = None, bestCells = [], bestTransformIndex = 0,
                 bestTranslation = (0, 0), bestKey = []\<rparr>"
  show ?case
  proof (cases "xs = []")
    case True
    then show ?thesis
      by (simp add: canonicalize_body_eq)
  next
    case False
    with snoc.IH obtain t where t: "t \<in> set xs"
      and st: "foldl (canonicalize_body S A) ?init xs = round_state t S A"
      and least: "\<forall>u\<in>set xs. roundKey t S \<le> roundKey u S"
      by blast
    show ?thesis
    proof (cases "roundKey x S < roundKey t S")
      case True
      then have "foldl (canonicalize_body S A) ?init (xs @ [x]) = round_state x S A"
        using st by (simp add: canonicalize_body_eq round_state_def)
      moreover have "\<forall>u\<in>set (xs @ [x]). roundKey x S \<le> roundKey u S"
        using True least by (auto intro: less_imp_le order.trans)
      ultimately show ?thesis by auto
    next
      case False
      then have "foldl (canonicalize_body S A) ?init (xs @ [x]) = round_state t S A"
        using st by (simp add: canonicalize_body_eq round_state_def)
      moreover have "\<forall>u\<in>set (xs @ [x]). roundKey t S \<le> roundKey u S"
        using False least by auto
      ultimately show ?thesis using t by auto
    qed
  qed
qed

lemma length_transforms: "length transforms = 8"
  by (simp add: transforms_def)

lemma canonicalize_char:
  assumes "S \<noteq> []"
  shows "\<exists>t<8. canonicalize S A =
            Inr \<lparr>canonicalStars = place t S S, transformIndex = t,
                 translation = corner t S, canonicalCells = place t S A\<rparr>
          \<and> (\<forall>u<8. roundKey t S \<le> roundKey u S)"
proof -
  have "[0..<8] \<noteq> []" by simp
  from fold_best [OF this, of S A] obtain t where "t \<in> set [0..<8]"
    and "foldl (canonicalize_body S A)
           \<lparr>bestStars = None, bestCells = [], bestTransformIndex = 0,
            bestTranslation = (0, 0), bestKey = []\<rparr> [0..<8] = round_state t S A"
    and "\<forall>u\<in>set [0..<8]. roundKey t S \<le> roundKey u S"
    by blast
  then show ?thesis
    using assms
    by (intro exI [of _ t]) (simp add: canonicalize_def length_transforms round_state_def)
qed

lemma canonicalize_no_stars:
  "canonicalize [] A = Inl (Error ''canonicalize expects at least one star'')"
  by (simp add: canonicalize_def)

subsection \<open>Coordinates after the translation\<close>

lemma min_list_le: "x \<in> set xs \<Longrightarrow> min_list xs \<le> (x::int)"
  by (cases "xs = []") (simp_all add: min_list_Min)

lemma place_stars_nonneg:
  assumes "p \<in> set (place t S S)"
  shows "0 \<le> fst p \<and> 0 \<le> snd p"
proof -
  from assms obtain q where q: "q \<in> set S"
    and p: "p = (fst (tfp t q) - fst (corner t S), snd (tfp t q) - snd (corner t S))"
    by (auto simp: place_def)
  have "fst (corner t S) \<le> fst (tfp t q)" "snd (corner t S) \<le> snd (tfp t q)"
    using q by (auto simp: corner_def intro!: min_list_le)
  with p show ?thesis by simp
qed

lemma place_member:
  "p \<in> set (place t S A) \<longleftrightarrow>
     (\<exists>q\<in>set A. p = (fst (tfp t q) - fst (corner t S), snd (tfp t q) - snd (corner t S)))"
  by (auto simp: place_def)

subsection \<open>The eight transforms are closed under composition\<close>

definition d4_comp :: "nat \<Rightarrow> nat \<Rightarrow> nat" where
  "d4_comp t g =
     [[0, 1, 2, 3, 4, 5, 6, 7], [1, 0, 3, 2, 5, 4, 7, 6], [2, 3, 0, 1, 6, 7, 4, 5],
      [3, 2, 1, 0, 7, 6, 5, 4], [4, 6, 5, 7, 0, 2, 1, 3], [5, 7, 4, 6, 1, 3, 0, 2],
      [6, 4, 7, 5, 2, 0, 3, 1], [7, 5, 6, 4, 3, 1, 2, 0]] ! t ! g"

definition d4_pre :: "nat \<Rightarrow> nat \<Rightarrow> nat" where
  "d4_pre t' g =
     [[0, 1, 2, 3, 4, 6, 5, 7], [1, 0, 3, 2, 5, 7, 4, 6], [2, 3, 0, 1, 6, 4, 7, 5],
      [3, 2, 1, 0, 7, 5, 6, 4], [4, 6, 5, 7, 0, 1, 2, 3], [5, 7, 4, 6, 1, 0, 3, 2],
      [6, 4, 7, 5, 2, 3, 0, 1], [7, 5, 6, 4, 3, 2, 1, 0]] ! t' ! g"

lemma less_8_cases: "n < 8 \<Longrightarrow> n \<in> {0, 1, 2, 3, 4, 5, 6, 7 :: nat}"
  by auto

lemma tfp_simps:
  "tfp 0 p = (fst p, snd p)" "tfp 1 p = (- fst p, snd p)"
  "tfp 2 p = (fst p, - snd p)" "tfp 3 p = (- fst p, - snd p)"
  "tfp 4 p = (snd p, fst p)" "tfp 5 p = (- snd p, fst p)"
  "tfp 6 p = (snd p, - fst p)" "tfp 7 p = (- snd p, - fst p)"
  "tfp (Suc 0) p = (- fst p, snd p)"
  by (simp_all add: tfp_def transforms_def)

lemma d4_comp_less: "t < 8 \<Longrightarrow> g < 8 \<Longrightarrow> d4_comp t g < 8"
  by (drule less_8_cases, drule less_8_cases) (auto simp: d4_comp_def)

lemma d4_pre_less: "t < 8 \<Longrightarrow> g < 8 \<Longrightarrow> d4_pre t g < 8"
  by (drule less_8_cases, drule less_8_cases) (auto simp: d4_pre_def)

lemma tfp_comp: "t < 8 \<Longrightarrow> g < 8 \<Longrightarrow> tfp t (tfp g p) = tfp (d4_comp t g) p"
  by (drule less_8_cases, drule less_8_cases) (auto simp: d4_comp_def tfp_simps)

lemma d4_comp_pre: "t' < 8 \<Longrightarrow> g < 8 \<Longrightarrow> d4_comp (d4_pre t' g) g = t'"
  by (drule less_8_cases, drule less_8_cases) (auto simp: d4_comp_def d4_pre_def)

lemma tfp_add:
  "t < 8 \<Longrightarrow> tfp t (fst p + fst d, snd p + snd d) =
     (fst (tfp t p) + fst (tfp t d), snd (tfp t p) + snd (tfp t d))"
  by (drule less_8_cases) (auto simp: tfp_simps)

subsection \<open>Images of a point list under a transform and a translation\<close>

definition move :: "nat \<Rightarrow> Point \<Rightarrow> Point \<Rightarrow> Point" where
  "move g d p = (fst (tfp g p) + fst d, snd (tfp g p) + snd d)"

lemma tfp_move:
  "t < 8 \<Longrightarrow> g < 8 \<Longrightarrow>
   tfp t (move g d p) =
     (fst (tfp (d4_comp t g) p) + fst (tfp t d), snd (tfp (d4_comp t g) p) + snd (tfp t d))"
  using tfp_add [of t "tfp g p" d] by (simp add: move_def tfp_comp)

lemma min_list_Min_set: "xs \<noteq> [] \<Longrightarrow> min_list (map f xs) = Min (f ` set xs)"
  by (simp add: min_list_Min)

lemma Min_image_add:
  assumes "finite X" "X \<noteq> {}"
  shows "Min ((\<lambda>x. f x + (k::int)) ` X) = Min (f ` X) + k"
proof -
  have "(\<lambda>x. f x + k) ` X = (\<lambda>y. y + k) ` (f ` X)"
    by auto
  moreover have "Min ((\<lambda>y. y + k) ` (f ` X)) = Min (f ` X) + k"
    using assms by (intro mono_Min_commute [symmetric]) (auto simp: mono_def)
  ultimately show ?thesis by simp
qed

lemma corner_move:
  assumes "t < 8" "g < 8" "S \<noteq> []" "mset S2 = image_mset (move g d) (mset S)"
  shows "corner t S2 =
     (fst (corner (d4_comp t g) S) + fst (tfp t d), snd (corner (d4_comp t g) S) + snd (tfp t d))"
proof -
  have set2: "set S2 = move g d ` set S"
    using assms(4) by (metis set_image_mset set_mset_mset)
  have ne2: "S2 \<noteq> []"
    using assms(3,4) by auto
  have a: "(fst \<circ> tfp t) ` set S2 = (\<lambda>p. fst (tfp (d4_comp t g) p) + fst (tfp t d)) ` set S"
    using assms(1,2) by (auto simp: set2 tfp_move image_iff)
  have b: "(snd \<circ> tfp t) ` set S2 = (\<lambda>p. snd (tfp (d4_comp t g) p) + snd (tfp t d)) ` set S"
    using assms(1,2) by (auto simp: set2 tfp_move image_iff)
  have fin: "finite (set S)" "set S \<noteq> {}"
    using assms(3) by auto
  have "min_list (map fst (map (tfp t) S2)) = Min ((fst \<circ> tfp t) ` set S2)"
    using ne2 by (simp add: min_list_Min image_image)
  also have "\<dots> = Min ((\<lambda>p. fst (tfp (d4_comp t g) p)) ` set S) + fst (tfp t d)"
    unfolding a using fin by (rule Min_image_add)
  also have "Min ((\<lambda>p. fst (tfp (d4_comp t g) p)) ` set S)
      = min_list (map fst (map (tfp (d4_comp t g)) S))"
    using assms(3) by (simp add: min_list_Min image_image)
  finally have r: "min_list (map fst (map (tfp t) S2))
      = min_list (map fst (map (tfp (d4_comp t g)) S)) + fst (tfp t d)" .
  have "min_list (map snd (map (tfp t) S2)) = Min ((snd \<circ> tfp t) ` set S2)"
    using ne2 by (simp add: min_list_Min image_image)
  also have "\<dots> = Min ((\<lambda>p. snd (tfp (d4_comp t g) p)) ` set S) + snd (tfp t d)"
    unfolding b using fin by (rule Min_image_add)
  also have "Min ((\<lambda>p. snd (tfp (d4_comp t g) p)) ` set S)
      = min_list (map snd (map (tfp (d4_comp t g)) S))"
    using assms(3) by (simp add: min_list_Min image_image)
  finally have c: "min_list (map snd (map (tfp t) S2))
      = min_list (map snd (map (tfp (d4_comp t g)) S)) + snd (tfp t d)" .
  from r c show ?thesis
    by (simp add: corner_def)
qed

lemma sort_cong_mset: "mset xs = mset ys \<Longrightarrow> sort xs = sort (ys :: Point list)"
  by (rule properties_for_sort) simp_all

lemma place_move:
  assumes "t < 8" "g < 8" "S \<noteq> []" "mset S2 = image_mset (move g d) (mset S)"
    and "mset A2 = image_mset (move g d) (mset A)"
  shows "place t S2 A2 = place (d4_comp t g) S A"
proof -
  let ?t' = "d4_comp t g"
  let ?f2 = "\<lambda>p. (fst (tfp t p) - fst (corner t S2), snd (tfp t p) - snd (corner t S2))"
  let ?f1 = "\<lambda>p. (fst (tfp ?t' p) - fst (corner ?t' S), snd (tfp ?t' p) - snd (corner ?t' S))"
  have c: "corner t S2 = (fst (corner ?t' S) + fst (tfp t d), snd (corner ?t' S) + snd (tfp t d))"
    using assms(1-4) by (rule corner_move)
  have pt: "?f2 (move g d p) = ?f1 p" for p
    using assms(1,2) by (simp add: c tfp_move)
  have "mset (map ?f2 A2) = image_mset ?f2 (image_mset (move g d) (mset A))"
    using assms(5) by simp
  also have "\<dots> = image_mset ?f1 (mset A)"
    by (simp add: image_mset.compositionality o_def pt)
  finally have "mset (map ?f2 A2) = mset (map ?f1 A)"
    by simp
  then show ?thesis
    unfolding place_def by (rule sort_cong_mset)
qed

lemma json_of_points_inj: "json_of_points ps = json_of_points qs \<Longrightarrow> ps = qs"
proof (induction ps arbitrary: qs)
  case Nil
  then show ?case by (simp add: json_of_points_def)
next
  case (Cons p ps)
  then obtain q qs' where qs: "qs = q # qs'"
    by (cases qs) (auto simp: json_of_points_def)
  with Cons.prems have "p = q" "json_of_points ps = json_of_points qs'"
    by (auto simp: json_of_points_def json_of_point_def prod_eq_iff)
  with Cons.IH qs show ?case by simp
qed

lemma roundKey_eq_iff: "roundKey t S = roundKey u S' \<longleftrightarrow> place t S S = place u S' S'"
proof
  assume "roundKey t S = roundKey u S'"
  then have "json_of_points (place t S S) = json_of_points (place u S' S')"
    unfolding roundKey_def by (rule JSON_stringify_inj)
  then show "place t S S = place u S' S'"
    by (rule json_of_points_inj)
next
  assume "place t S S = place u S' S'"
  then show "roundKey t S = roundKey u S'"
    by (simp add: roundKey_def)
qed

text \<open>The star part of the result is the same for both of two symmetric inputs.\<close>

lemma canonical_stars_move:
  assumes "g < 8" "S \<noteq> []" "mset S2 = image_mset (move g d) (mset S)"
    and c1: "canonicalize S A = Inr cp" and c2: "canonicalize S2 A2 = Inr cp2"
  shows "canonicalStars cp2 = canonicalStars cp"
proof -
  have ne2: "S2 \<noteq> []"
    using assms(2,3) by auto
  from canonicalize_char [OF assms(2), of A] c1 obtain t where t: "t < 8"
    and cs: "canonicalStars cp = place t S S"
    and least: "\<forall>u<8. roundKey t S \<le> roundKey u S"
    by auto
  from canonicalize_char [OF ne2, of A2] c2 obtain t2 where t2: "t2 < 8"
    and cs2: "canonicalStars cp2 = place t2 S2 S2"
    and least2: "\<forall>u<8. roundKey t2 S2 \<le> roundKey u S2"
    by auto
  have key: "roundKey u S2 = roundKey (d4_comp u g) S" if "u < 8" for u
    using place_move [OF that assms(1,2,3,3)] by (simp add: roundKey_def)
  have "roundKey t S \<le> roundKey (d4_comp t2 g) S"
    using least d4_comp_less [OF t2 assms(1)] by blast
  then have le1: "roundKey t S \<le> roundKey t2 S2"
    using key [OF t2] by simp
  let ?u = "d4_pre t g"
  have u: "?u < 8"
    using t assms(1) by (rule d4_pre_less)
  have "roundKey ?u S2 = roundKey t S"
    using key [OF u] d4_comp_pre [OF t assms(1)] by simp
  with least2 u have "roundKey t2 S2 \<le> roundKey t S"
    by metis
  with le1 have "roundKey t2 S2 = roundKey t S"
    by (rule antisym [rotated])
  then show ?thesis
    using cs cs2 by (simp add: roundKey_eq_iff)
qed

lemma canonicalize_total: "S \<noteq> [] \<Longrightarrow> \<exists>cp. canonicalize S A = Inr cp"
  using canonicalize_char [of S A] by blast

subsection \<open>Which transform the loop keeps\<close>




subsection \<open>Composing and undoing transforms\<close>












subsection \<open>The star-pair loop computes what the general loop computes\<close>

lemma sorted_pair_sort:
  "(if fst p1 < fst p2 \<or> (fst p1 = fst p2 \<and> snd p1 < snd p2) then [p1, p2] else [p2, p1])
     = sort [p1, p2 :: Point]"
  by (cases p1; cases p2) (auto simp: less_eq_prod_def)

lemma canonicalizeStars_body_eq:
  "canonicalizeStars_body a b st i =
     (if fst st = None \<or> roundKey i [a, b] < snd st
      then (Some \<lparr>canonicalStars = place i [a, b] [a, b], transformIndex = i,
                  translation = corner i [a, b]\<rparr>, roundKey i [a, b])
      else st)"
  unfolding canonicalizeStars_body_def Let_def sorted_pair_sort
  by (simp add: roundKey_def place_def corner_def tfp_def)

lemma fold_pair:
  "foldl (canonicalizeStars_body a b) (None, []) ts =
     (let st = foldl (canonicalize_body [a, b] A)
                 \<lparr>bestStars = None, bestCells = [], bestTransformIndex = 0,
                  bestTranslation = (0, 0), bestKey = []\<rparr> ts
      in (map_option (\<lambda>bs. \<lparr>canonicalStars = bs, transformIndex = bestTransformIndex st,
                              translation = bestTranslation st\<rparr>) (bestStars st),
          bestKey st))"
proof (induction ts rule: rev_induct)
  case Nil
  then show ?case by simp
next
  case (snoc x xs)
  then show ?case
    by (simp add: Let_def canonicalizeStars_body_eq canonicalize_body_eq round_state_def)
qed

lemma canonicalizeStars_canonicalize:
  assumes "length S = 2"
  shows "canonicalizeStars S =
     (case canonicalize S A of
        Inl e \<Rightarrow> Inl e
      | Inr cp \<Rightarrow> Inr \<lparr>canonicalStars = canonicalStars cp, transformIndex = transformIndex cp,
                         translation = translation cp\<rparr>)"
proof -
  from assms obtain a b where S: "S = [a, b]"
    by (cases S; cases "tl S") auto
  show ?thesis
    unfolding S canonicalizeStars_def canonicalize_def
    by (simp add: fold_pair [of a b _ A] Let_def split: option.splits)
qed

lemma canonicalizeEmpties_place:
  "t < 8 \<Longrightarrow> canonicalizeEmpties A t (corner t S) = Inr (place t S A)"
  by (simp add: canonicalizeEmpties_def length_transforms place_def tfp_def sort_by_cmpPoint Let_def)

subsection \<open>Properties of the canonical form\<close>

text \<open>
  Claim C2. For a non-empty star list \<open>P\<close>, canonicalizing the image of \<open>P\<close> under any of
  the eight transforms followed by any translation gives the same \<open>canonicalStars\<close> as
  canonicalizing \<open>P\<close>, whatever cells accompany either call; and canonicalizing the
  \<open>canonicalStars\<close> just produced gives them back. All three calls return a result.
\<close>

theorem canonicalize_symmetry_invariant:
  assumes "P \<noteq> []" and "g < length transforms"
  shows "\<exists>cp cp' cp''.
           canonicalize P A = Inr cp
         \<and> canonicalize (map (move g d) P) A' = Inr cp'
         \<and> canonicalStars cp' = canonicalStars cp
         \<and> canonicalize (canonicalStars cp) A'' = Inr cp''
         \<and> canonicalStars cp'' = canonicalStars cp"
proof -
  have g: "g < 8"
    using assms(2) by (simp add: length_transforms)
  obtain cp where cp: "canonicalize P A = Inr cp"
    using canonicalize_total [OF assms(1)] by blast
  have "map (move g d) P \<noteq> []"
    using assms(1) by simp
  then obtain cp' where cp': "canonicalize (map (move g d) P) A' = Inr cp'"
    using canonicalize_total by blast
  have same: "canonicalStars cp' = canonicalStars cp"
    by (rule canonical_stars_move [OF g assms(1) _ cp cp']) simp
  from canonicalize_char [OF assms(1), of A] cp obtain t where t: "t < 8"
    and cs: "canonicalStars cp = place t P P"
    by auto
  let ?d = "(- fst (corner t P), - snd (corner t P))"
  have img: "mset (canonicalStars cp) = image_mset (move t ?d) (mset P)"
    unfolding cs place_def mset_sort mset_map
    by (rule image_mset_cong) (simp add: move_def)
  have "canonicalStars cp \<noteq> []"
    using img assms(1) by auto
  then obtain cp'' where cp'': "canonicalize (canonicalStars cp) A'' = Inr cp''"
    using canonicalize_total by blast
  have "canonicalStars cp'' = canonicalStars cp"
    by (rule canonical_stars_move [OF t assms(1) img cp cp''])
  with cp cp' same cp'' show ?thesis
    by blast
qed

theorem canonicalize_symmetry_invariant_witness:
  "canonicalize [(1, 2), (3, 5)] [(0, 0)] =
     Inr \<lparr>canonicalStars = [(0, 0), (2, 3)], transformIndex = 0, translation = (1, 2),
          canonicalCells = [(- 1, - 2)]\<rparr>
   \<and> map (move 5 (7, 1)) [(1, 2), (3, 5)] = [(5, 2), (2, 4)]
   \<and> canonicalize [(5, 2), (2, 4)] [] =
     Inr \<lparr>canonicalStars = [(0, 0), (2, 3)], transformIndex = 5, translation = (- 4, 2),
          canonicalCells = []\<rparr>
   \<and> canonicalize [(0, 0), (2, 3)] [] =
     Inr \<lparr>canonicalStars = [(0, 0), (2, 3)], transformIndex = 0, translation = (0, 0),
          canonicalCells = []\<rparr>"
proof -
  have a: "canonicalize [(1, 2), (3, 5)] [(0, 0)] =
     Inr \<lparr>canonicalStars = [(0, 0), (2, 3)], transformIndex = 0, translation = (1, 2),
          canonicalCells = [(- 1, - 2)]\<rparr>"
    by code_simp
  have m: "map (move 5 (7, 1)) [(1, 2), (3, 5)] = [(5, 2), (2, 4)]"
    by (simp add: move_def tfp_simps)
  have b: "canonicalize [(5, 2), (2, 4)] [] =
     Inr \<lparr>canonicalStars = [(0, 0), (2, 3)], transformIndex = 5, translation = (- 4, 2),
          canonicalCells = []\<rparr>"
    by code_simp
  have c: "canonicalize [(0, 0), (2, 3)] [] =
     Inr \<lparr>canonicalStars = [(0, 0), (2, 3)], transformIndex = 0, translation = (0, 0),
          canonicalCells = []\<rparr>"
    by code_simp
  have "[(1, 2), (3, 5)] \<noteq> ([] :: Point list)" and "5 < length transforms"
    by (simp_all add: length_transforms)
  from canonicalize_symmetry_invariant [OF this, of "[(0, 0)]" "(7, 1)" "[]" "[]"]
  show ?thesis
    using a m b c by simp
qed








text \<open>
  Claim C8, as stated, does not hold for the accompanying cells: the translation is the
  minimum corner of the transformed stars only, so a cell above or left of every star
  keeps negative coordinates.
\<close>

theorem canonical_cells_negative_counterexample:
  "map_sum id canonicalCells (canonicalize [(1, 1)] [(0, 0)]) = Inr [(- 1, - 1)]"
  by code_simp

text \<open>
  Claim C8, amended. Every coordinate of every point of \<open>canonicalStars\<close> is
  non-negative, for \<open>canonicalize\<close> and for the star-pair \<open>canonicalizeStars\<close>. The
  accompanying points (\<open>canonicalCells\<close>, and the result of \<open>canonicalizeEmpties\<close>) are
  the transformed cells minus the translation, which is the minimum corner of the
  transformed stars; a coordinate of such a point is non-negative exactly when the
  transformed cell is not below that corner.
\<close>

theorem canonical_coordinates:
  "(canonicalize S A = Inr cp \<longrightarrow>
      (\<forall>p\<in>set (canonicalStars cp). 0 \<le> fst p \<and> 0 \<le> snd p)
    \<and> set (canonicalCells cp) =
        (\<lambda>c. (fst (tfp (transformIndex cp) c) - fst (translation cp),
               snd (tfp (transformIndex cp) c) - snd (translation cp))) ` set A
    \<and> translation cp = corner (transformIndex cp) S)
   \<and> (canonicalizeStars S = Inr r \<longrightarrow>
      (\<forall>p\<in>set (canonicalStars r). 0 \<le> fst p \<and> 0 \<le> snd p)
    \<and> translation r = corner (transformIndex r) S)
   \<and> (canonicalizeEmpties A i tr = Inr es \<longrightarrow>
      set es = (\<lambda>c. (fst (tfp i c) - fst tr, snd (tfp i c) - snd tr)) ` set A)"
proof (intro conjI impI)
  assume c: "canonicalize S A = Inr cp"
  then have ne: "S \<noteq> []"
    by (auto simp: canonicalize_def)
  from canonicalize_char [OF ne, of A] c obtain t where t: "t < 8"
    and cp: "cp = \<lparr>canonicalStars = place t S S, transformIndex = t,
                   translation = corner t S, canonicalCells = place t S A\<rparr>"
    by auto
  show "\<forall>p\<in>set (canonicalStars cp). 0 \<le> fst p \<and> 0 \<le> snd p"
    using place_stars_nonneg by (simp add: cp)
  show "set (canonicalCells cp) =
        (\<lambda>c. (fst (tfp (transformIndex cp) c) - fst (translation cp),
               snd (tfp (transformIndex cp) c) - snd (translation cp))) ` set A"
    by (simp add: cp place_def)
  show "translation cp = corner (transformIndex cp) S"
    by (simp add: cp)
next
  assume c: "canonicalizeStars S = Inr r"
  then have len: "length S = 2"
    by (auto simp: canonicalizeStars_def split: if_splits)
  then have ne: "S \<noteq> []"
    by auto
  from canonicalize_char [OF ne, of "[]"] obtain t where t: "t < 8"
    and cp: "canonicalize S [] = Inr \<lparr>canonicalStars = place t S S, transformIndex = t,
                   translation = corner t S, canonicalCells = place t S []\<rparr>"
    by auto
  have r: "r = \<lparr>canonicalStars = place t S S, transformIndex = t, translation = corner t S\<rparr>"
    using c canonicalizeStars_canonicalize [OF len, of "[]"] cp by simp
  show "\<forall>p\<in>set (canonicalStars r). 0 \<le> fst p \<and> 0 \<le> snd p"
    using place_stars_nonneg by (simp add: r)
  show "translation r = corner (transformIndex r) S"
    by (simp add: r)
next
  assume "canonicalizeEmpties A i tr = Inr es"
  then show "set es = (\<lambda>c. (fst (tfp i c) - fst tr, snd (tfp i c) - snd tr)) ` set A"
    by (force simp: canonicalizeEmpties_def sort_by_cmpPoint tfp_def Let_def split: if_splits)
qed

theorem canonical_coordinates_witness:
  "canonicalize [(1, 2), (3, 5)] [(0, 0), (4, 4)] =
     Inr \<lparr>canonicalStars = [(0, 0), (2, 3)], transformIndex = 0, translation = (1, 2),
          canonicalCells = [(- 1, - 2), (3, 2)]\<rparr>
   \<and> canonicalizeStars [(1, 2), (3, 5)] =
     Inr \<lparr>canonicalStars = [(0, 0), (2, 3)], transformIndex = 0, translation = (1, 2)\<rparr>
   \<and> canonicalizeEmpties [(0, 0), (4, 4)] 0 (1, 2) = Inr [(- 1, - 2), (3, 2)]
   \<and> list_all (\<lambda>p. 0 \<le> fst p \<and> 0 \<le> snd p) ([(0, 0), (2, 3)] :: Point list)
   \<and> corner 0 [(1, 2), (3, 5)] = (1, 2)"
proof -
  have a: "canonicalize [(1, 2), (3, 5)] [(0, 0), (4, 4)] =
     Inr \<lparr>canonicalStars = [(0, 0), (2, 3)], transformIndex = 0, translation = (1, 2),
          canonicalCells = [(- 1, - 2), (3, 2)]\<rparr>"
    by code_simp
  have b: "canonicalizeStars [(1, 2), (3, 5)] =
     Inr \<lparr>canonicalStars = [(0, 0), (2, 3)], transformIndex = 0, translation = (1, 2)\<rparr>"
    by code_simp
  have c: "canonicalizeEmpties [(0, 0), (4, 4)] 0 (1, 2) = Inr [(- 1, - 2), (3, 2)]"
    by code_simp
  from canonical_coordinates [of "[(1, 2), (3, 5)]" "[(0, 0), (4, 4)]"
      "\<lparr>canonicalStars = [(0, 0), (2, 3)], transformIndex = 0, translation = (1, 2),
        canonicalCells = [(- 1, - 2), (3, 2)]\<rparr>"
      "\<lparr>canonicalStars = [(0, 0), (2, 3)], transformIndex = 0, translation = (1, 2)\<rparr>"
      0 "(1, 2)" "[(- 1, - 2), (3, 2)]"] a b c
  show ?thesis
    by simp
qed

section \<open>Enumerator: every full star placement\<close>

type_synonym Grid = "nat list list"

text \<open>
  \<open>isValidPlacement\<close>: none of the eight neighbours of \<open>(row, col)\<close> that lie on the
  board holds a star.
\<close>

definition isValidPlacement :: "nat \<Rightarrow> Grid \<Rightarrow> nat \<Rightarrow> nat \<Rightarrow> bool" where
  "isValidPlacement boardSize grid row col =
     list_all (\<lambda>dr. list_all (\<lambda>dc.
         (dr = 0 \<and> dc = 0) \<or>
         (let nr = int row + dr; nc = int col + dc
          in \<not> (nr \<ge> 0 \<and> nr < int boardSize \<and> nc \<ge> 0 \<and> nc < int boardSize)
             \<or> grid ! nat nr ! nat nc \<noteq> 1))
       [- 1, 0, 1]) [- 1, 0, 1]"

definition countStarsInRow :: "Grid \<Rightarrow> nat \<Rightarrow> nat" where
  "countStarsInRow grid row = foldl (\<lambda>sum val. sum + val) 0 (grid ! row)"

definition countStarsInColumn :: "nat \<Rightarrow> Grid \<Rightarrow> nat \<Rightarrow> nat" where
  "countStarsInColumn boardSize grid col =
     foldl (\<lambda>count row. count + grid ! row ! col) 0 [0..<boardSize]"

definition copyGrid :: "Grid \<Rightarrow> Grid" where
  "copyGrid grid = map (\<lambda>row. map (\<lambda>v. v) row) grid"

definition setCell :: "Grid \<Rightarrow> nat \<Rightarrow> nat \<Rightarrow> nat \<Rightarrow> Grid" where
  "setCell grid row col v = grid[row := (grid ! row)[col := v]]"

text \<open>
  \<open>backtrack\<close> works on the one mutable grid and appends to \<open>this.solutions\<close>; the model
  passes both through every call. The progress counters and the progress callback do
  not touch either and are left out. The method is private and entered at \<open>(0, 0)\<close> only;
  a call advances \<open>col\<close> only after \<open>col === boardSize\<close> has returned and \<open>row\<close> only
  after \<open>row === boardSize\<close> has returned, so neither passes \<open>boardSize\<close>. The first
  branch of the model closes the function on the indices that are never reached.
\<close>

function backtrack :: "nat \<Rightarrow> nat \<Rightarrow> Grid \<times> Grid list \<Rightarrow> nat \<Rightarrow> nat \<Rightarrow> Grid \<times> Grid list" where
  "backtrack boardSize starsPerRow (grid, solutions) row col =
     (if boardSize < row \<or> boardSize < col then (grid, solutions)
      else if row = boardSize then
        (if list_all (\<lambda>c. countStarsInColumn boardSize grid c = starsPerRow) [0..<boardSize]
         then (grid, solutions @ [copyGrid grid])
         else (grid, solutions))
      else
        let remainingInRow = int boardSize - int col;
            starsInRow = countStarsInRow grid row;
            starsNeeded = int starsPerRow - int starsInRow
        in if starsNeeded > remainingInRow then (grid, solutions)
           else if col > 0 \<and> countStarsInColumn boardSize grid (col - 1) > starsPerRow
             then (grid, solutions)
           else if col = boardSize then
             (if starsInRow = starsPerRow then
                (if list_all (\<lambda>c. \<not> countStarsInColumn boardSize grid c > starsPerRow)
                      [0..<boardSize]
                 then backtrack boardSize starsPerRow (grid, solutions) (row + 1) 0
                 else (grid, solutions))
              else (grid, solutions))
           else
             backtrack boardSize starsPerRow
               (if starsInRow < starsPerRow \<and> isValidPlacement boardSize grid row col
                then (case backtrack boardSize starsPerRow (setCell grid row col 1, solutions)
                             row (col + 1) of
                        (grid', solutions') \<Rightarrow> (setCell grid' row col 0, solutions'))
                else (grid, solutions))
               row (col + 1))"
  by pat_completeness auto
termination
  by (relation "measures [\<lambda>(N, S, st, row, col). N - row, \<lambda>(N, S, st, row, col). N + 1 - col]")
    auto

declare backtrack.simps [simp del]

definition enumerate' :: "nat \<Rightarrow> nat \<Rightarrow> Grid list" where
  "enumerate' boardSize starsPerRow =
     snd (backtrack boardSize starsPerRow (replicate boardSize (replicate boardSize 0), []) 0 0)"

subsection \<open>What a configuration is\<close>

text \<open>
  An \<open>N \<times> N\<close> matrix of zeros and ones in which every row and every column sums to
  \<open>S\<close> and no two distinct cells holding a one are within Chebyshev distance 1.
\<close>

definition square :: "nat \<Rightarrow> Grid \<Rightarrow> bool" where
  "square N g \<longleftrightarrow> length g = N \<and> (\<forall>r<N. length (g ! r) = N)"

definition binary :: "nat \<Rightarrow> Grid \<Rightarrow> bool" where
  "binary N g \<longleftrightarrow> (\<forall>r<N. \<forall>c<N. g ! r ! c = 0 \<or> g ! r ! c = 1)"

definition rowsum :: "nat \<Rightarrow> Grid \<Rightarrow> nat \<Rightarrow> nat" where
  "rowsum N g r = (\<Sum>c<N. g ! r ! c)"

definition colsum :: "nat \<Rightarrow> Grid \<Rightarrow> nat \<Rightarrow> nat" where
  "colsum N g c = (\<Sum>r<N. g ! r ! c)"

definition chebyshev :: "nat \<Rightarrow> nat \<Rightarrow> nat \<Rightarrow> nat \<Rightarrow> int" where
  "chebyshev r c r' c' = max \<bar>int r - int r'\<bar> \<bar>int c - int c'\<bar>"

definition no_touch :: "nat \<Rightarrow> Grid \<Rightarrow> bool" where
  "no_touch N g \<longleftrightarrow>
     (\<forall>r<N. \<forall>c<N. \<forall>r'<N. \<forall>c'<N.
        g ! r ! c = 1 \<and> g ! r' ! c' = 1 \<and> (r, c) \<noteq> (r', c') \<longrightarrow> 1 < chebyshev r c r' c')"

definition is_configuration :: "nat \<Rightarrow> nat \<Rightarrow> Grid \<Rightarrow> bool" where
  "is_configuration N S g \<longleftrightarrow>
     square N g \<and> binary N g \<and> (\<forall>r<N. rowsum N g r = S) \<and> (\<forall>c<N. colsum N g c = S)
     \<and> no_touch N g"

subsection \<open>The counting and placement helpers, in terms of cells\<close>

lemma foldl_plus: "foldl (\<lambda>s v. s + v) a xs = a + sum_list (xs :: nat list)"
  by (induction xs arbitrary: a) simp_all

lemma countStarsInRow_rowsum:
  "length (g ! r) = N \<Longrightarrow> countStarsInRow g r = rowsum N g r"
  by (simp add: countStarsInRow_def rowsum_def foldl_plus sum_list_sum_nth atLeast0LessThan)

lemma foldl_count: "foldl (\<lambda>count row. count + f row) a [0..<n] = a + (\<Sum>r<n. f r :: nat)"
  by (induction n arbitrary: a) simp_all

lemma countStarsInColumn_colsum: "countStarsInColumn N g c = colsum N g c"
  by (simp add: countStarsInColumn_def colsum_def foldl_count)

lemma list_all_upt: "list_all P [0..<n] \<longleftrightarrow> (\<forall>c<n. P c)"
  by (auto simp: list_all_iff)

lemma copyGrid_id: "copyGrid g = g"
  by (simp add: copyGrid_def)

lemma near_offsets:
  "chebyshev r c r' c' \<le> 1 \<longleftrightarrow>
     (\<exists>dr\<in>{- 1, 0, 1}. \<exists>dc\<in>{- 1, 0, 1}. int r' = int r + dr \<and> int c' = int c + dc)"
  unfolding chebyshev_def by auto

lemma isValidPlacement_alt:
  "isValidPlacement N g row col \<longleftrightarrow>
     (\<forall>dr\<in>{- 1, 0, 1}. \<forall>dc\<in>{- 1, 0, 1}.
        (dr = 0 \<and> dc = 0) \<or>
        (let nr = int row + dr; nc = int col + dc
         in \<not> (nr \<ge> 0 \<and> nr < int N \<and> nc \<ge> 0 \<and> nc < int N) \<or> g ! nat nr ! nat nc \<noteq> 1))"
  by (simp only: isValidPlacement_def list_all_iff list.set)

lemma isValidPlacement_iff:
  "isValidPlacement N g row col \<longleftrightarrow>
     (\<forall>r'<N. \<forall>c'<N. (row, col) \<noteq> (r', c') \<and> chebyshev row col r' c' \<le> 1 \<longrightarrow> g ! r' ! c' \<noteq> 1)"
proof
  assume v: "isValidPlacement N g row col"
  show "\<forall>r'<N. \<forall>c'<N. (row, col) \<noteq> (r', c') \<and> chebyshev row col r' c' \<le> 1 \<longrightarrow> g ! r' ! c' \<noteq> 1"
  proof (intro allI impI)
    fix r' c'
    assume r': "r' < N" and c': "c' < N"
      and nb: "(row, col) \<noteq> (r', c') \<and> chebyshev row col r' c' \<le> 1"
    from nb obtain dr dc where d: "dr \<in> {- 1, 0, 1}" "dc \<in> {- 1, 0, 1}"
      and e: "int r' = int row + dr" "int c' = int col + dc"
      unfolding near_offsets by blast
    from nb e have nz: "\<not> (dr = 0 \<and> dc = 0)"
      by auto
    have "(dr = 0 \<and> dc = 0) \<or>
          (let nr = int row + dr; nc = int col + dc
           in \<not> (nr \<ge> 0 \<and> nr < int N \<and> nc \<ge> 0 \<and> nc < int N) \<or> g ! nat nr ! nat nc \<noteq> 1)"
      using v d unfolding isValidPlacement_alt by blast
    with nz e r' c' show "g ! r' ! c' \<noteq> 1"
      by (simp add: Let_def) (metis nat_int)
  qed
next
  assume a: "\<forall>r'<N. \<forall>c'<N. (row, col) \<noteq> (r', c') \<and> chebyshev row col r' c' \<le> 1 \<longrightarrow> g ! r' ! c' \<noteq> 1"
  have "(dr = 0 \<and> dc = 0) \<or>
        (let nr = int row + dr; nc = int col + dc
         in \<not> (nr \<ge> 0 \<and> nr < int N \<and> nc \<ge> 0 \<and> nc < int N) \<or> g ! nat nr ! nat nc \<noteq> 1)"
    if d: "dr \<in> {- 1, 0, 1}" "dc \<in> {- 1, 0, 1}" for dr dc :: int
  proof (cases "(dr = 0 \<and> dc = 0) \<or>
      \<not> (int row + dr \<ge> 0 \<and> int row + dr < int N \<and> int col + dc \<ge> 0 \<and> int col + dc < int N)")
    case True
    then show ?thesis by (auto simp: Let_def)
  next
    case False
    let ?r = "nat (int row + dr)" and ?c = "nat (int col + dc)"
    have r: "?r < N" "?c < N" and e: "int ?r = int row + dr" "int ?c = int col + dc"
      using False by auto
    have "(row, col) \<noteq> (?r, ?c)"
    proof
      assume "(row, col) = (?r, ?c)"
      then have a: "row = ?r" and b: "col = ?c"
        by blast+
      from a have "int row = int ?r"
        by (rule arg_cong)
      with e(1) have "dr = 0"
        by linarith
      from b have "int col = int ?c"
        by (rule arg_cong)
      with e(2) have "dc = 0"
        by linarith
      with \<open>dr = 0\<close> False show False
        by blast
    qed
    moreover have "chebyshev row col ?r ?c \<le> 1"
      unfolding near_offsets using d e by blast
    ultimately have "g ! ?r ! ?c \<noteq> 1"
      using a r by blast
    then show ?thesis by (simp add: Let_def)
  qed
  then show "isValidPlacement N g row col"
    unfolding isValidPlacement_alt by blast
qed

lemma setCell_square: "square N g \<Longrightarrow> square N (setCell g r c v)"
  by (cases "r < length g") (auto simp: square_def setCell_def nth_list_update)

lemma setCell_nth:
  "square N g \<Longrightarrow> r < N \<Longrightarrow> c < N \<Longrightarrow> r' < N \<Longrightarrow> c' < N \<Longrightarrow>
   setCell g r c v ! r' ! c' = (if r' = r \<and> c' = c then v else g ! r' ! c')"
  by (auto simp: square_def setCell_def nth_list_update)

lemma grid_eqI:
  assumes "square N g" "square N h" "\<And>r c. r < N \<Longrightarrow> c < N \<Longrightarrow> g ! r ! c = h ! r ! c"
  shows "g = h"
proof (rule nth_equalityI)
  show "length g = length h"
    using assms(1,2) by (simp add: square_def)
next
  fix r assume "r < length g"
  then have r: "r < N"
    using assms(1) by (simp add: square_def)
  show "g ! r = h ! r"
  proof (rule nth_equalityI)
    show "length (g ! r) = length (h ! r)"
      using assms(1,2) r by (simp add: square_def)
  next
    fix c assume "c < length (g ! r)"
    then have "c < N"
      using assms(1) r by (simp add: square_def)
    then show "g ! r ! c = h ! r ! c"
      using r assms(3) by simp
  qed
qed

lemma setCell_undo:
  assumes "square N g" "r < N" "c < N" "g ! r ! c = 0"
  shows "setCell (setCell g r c 1) r c 0 = g"
proof (rule grid_eqI [of N])
  show "square N (setCell (setCell g r c 1) r c 0)"
    using assms(1) by (intro setCell_square)
  show "square N g" by fact
next
  fix r' c' assume rc: "r' < N" "c' < N"
  have "setCell (setCell g r c 1) r c 0 ! r' ! c'
      = (if r' = r \<and> c' = c then 0 else setCell g r c 1 ! r' ! c')"
    using setCell_square [OF assms(1)] assms(2,3) rc by (rule setCell_nth)
  also have "setCell g r c 1 ! r' ! c' = (if r' = r \<and> c' = c then 1 else g ! r' ! c')"
    using assms(1,2,3) rc by (rule setCell_nth)
  finally show "setCell (setCell g r c 1) r c 0 ! r' ! c' = g ! r' ! c'"
    using assms(4) by simp
qed

subsection \<open>The search state and its completions\<close>

text \<open>
  Cells are filled in row-major order. At \<open>(row, col)\<close> the cells before it are decided,
  the others are still zero; the rows above are complete and no two stars touch. The
  completions of such a grid are the configurations that agree with it on the decided
  cells.
\<close>

definition before :: "nat \<Rightarrow> nat \<Rightarrow> nat \<Rightarrow> nat \<Rightarrow> bool" where
  "before r c row col \<longleftrightarrow> r < row \<or> (r = row \<and> c < col)"

definition partial_ok :: "nat \<Rightarrow> nat \<Rightarrow> Grid \<Rightarrow> nat \<Rightarrow> nat \<Rightarrow> bool" where
  "partial_ok N S g row col \<longleftrightarrow>
     square N g \<and> binary N g \<and> no_touch N g
     \<and> (\<forall>r<N. \<forall>c<N. \<not> before r c row col \<longrightarrow> g ! r ! c = 0)
     \<and> (\<forall>r<row. rowsum N g r = S)
     \<and> row \<le> N \<and> col \<le> N \<and> (row = N \<longrightarrow> col = 0)"

definition completions :: "nat \<Rightarrow> nat \<Rightarrow> Grid \<Rightarrow> nat \<Rightarrow> nat \<Rightarrow> Grid set" where
  "completions N S g row col =
     {h. is_configuration N S h \<and> (\<forall>r<N. \<forall>c<N. before r c row col \<longrightarrow> h ! r ! c = g ! r ! c)}"

lemma completion_ge:
  assumes "partial_ok N S g row col" "h \<in> completions N S g row col" "r < N" "c < N"
  shows "g ! r ! c \<le> h ! r ! c"
proof (cases "before r c row col")
  case True
  then show ?thesis
    using assms by (simp add: completions_def)
next
  case False
  then have "g ! r ! c = 0"
    using assms by (simp add: partial_ok_def)
  then show ?thesis by simp
qed

lemma completions_done:
  assumes "partial_ok N S g N 0"
  shows "completions N S g N 0 = (if \<forall>c<N. colsum N g c = S then {g} else {})"
proof -
  have eq: "h = g" if "h \<in> completions N S g N 0" for h
  proof (rule grid_eqI [of N])
    show "square N h"
      using that by (simp add: completions_def is_configuration_def)
    show "square N g"
      using assms by (simp add: partial_ok_def)
  next
    fix r c assume "r < N" "c < N"
    then show "h ! r ! c = g ! r ! c"
      using that by (simp add: completions_def before_def)
  qed
  have mem: "g \<in> completions N S g N 0 \<longleftrightarrow> (\<forall>c<N. colsum N g c = S)"
    using assms by (auto simp: completions_def is_configuration_def partial_ok_def)
  show ?thesis
    using eq mem by auto
qed

lemma sum_split:
  "(col :: nat) \<le> N \<Longrightarrow> (\<Sum>c<N. f c) = (\<Sum>c<col. f c) + (\<Sum>c = col..<N. f c :: nat)"
  using sum.atLeastLessThan_concat [of 0 col N f] by (simp add: atLeast0LessThan)

lemma rowsum_split:
  assumes "partial_ok N S g row col" "h \<in> completions N S g row col" "row < N"
  shows "rowsum N h row = rowsum N g row + (\<Sum>c = col..<N. h ! row ! c)"
proof -
  have col: "col \<le> N"
    using assms(1) by (simp add: partial_ok_def)
  have "(\<Sum>c = col..<N. g ! row ! c) = 0"
    using assms(1,3) by (simp add: partial_ok_def before_def)
  then have g: "rowsum N g row = (\<Sum>c<col. g ! row ! c)"
    unfolding rowsum_def using sum_split [OF col, of "\<lambda>c. g ! row ! c"] by simp
  have "(\<Sum>c<col. h ! row ! c) = (\<Sum>c<col. g ! row ! c)"
    using assms(2,3) col by (intro sum.cong) (auto simp: completions_def before_def)
  then show ?thesis
    unfolding g unfolding rowsum_def using sum_split [OF col, of "\<lambda>c. h ! row ! c"] by simp
qed

lemma completions_row_short:
  assumes "partial_ok N S g row col" "row < N"
    and "int S - int (rowsum N g row) > int N - int col"
  shows "completions N S g row col = {}"
proof -
  have False if h: "h \<in> completions N S g row col" for h
  proof -
    have col: "col \<le> N"
      using assms(1) by (simp add: partial_ok_def)
    have bin: "binary N h"
      using h by (simp add: completions_def is_configuration_def)
    have "h ! row ! c \<le> 1" if "c \<in> {col..<N}" for c
    proof -
      have "c < N" using that by simp
      with bin assms(2) have "h ! row ! c = 0 \<or> h ! row ! c = 1"
        unfolding binary_def by blast
      then show ?thesis by auto
    qed
    then have "(\<Sum>c = col..<N. h ! row ! c) \<le> of_nat (card {col..<N}) * 1"
      by (intro sum_bounded_above) auto
    then have "(\<Sum>c = col..<N. h ! row ! c) \<le> N - col"
      by simp
    moreover have "rowsum N h row = S"
      using h assms(2) by (simp add: completions_def is_configuration_def)
    ultimately show False
      using rowsum_split [OF assms(1) h assms(2)] assms(3) col by linarith
  qed
  then show ?thesis by blast
qed

lemma completions_row_wrong:
  assumes "partial_ok N S g row N" "row < N" "rowsum N g row \<noteq> S"
  shows "completions N S g row N = {}"
proof -
  have False if h: "h \<in> completions N S g row N" for h
  proof -
    have "rowsum N h row = S"
      using h assms(2) by (simp add: completions_def is_configuration_def)
    then show False
      using rowsum_split [OF assms(1) h assms(2)] assms(3) by simp
  qed
  then show ?thesis by blast
qed

lemma completions_col_over:
  assumes "partial_ok N S g row col" "c < N" "S < colsum N g c"
  shows "completions N S g row col = {}"
proof -
  have False if h: "h \<in> completions N S g row col" for h
  proof -
    have "colsum N g c \<le> colsum N h c"
      unfolding colsum_def using completion_ge [OF assms(1) h _ assms(2)]
      by (intro sum_mono) simp
    moreover have "colsum N h c = S"
      using h assms(2) by (simp add: completions_def is_configuration_def)
    ultimately show False
      using assms(3) by simp
  qed
  then show ?thesis by blast
qed

lemma completions_next_row: "completions N S g row N = completions N S g (Suc row) 0"
proof -
  have "before r c row N \<longleftrightarrow> before r c (Suc row) 0" if "c < N" for r c
    using that by (auto simp: before_def)
  then show ?thesis
    by (auto simp: completions_def)
qed

lemma partial_ok_next_row:
  assumes "partial_ok N S g row N" "row < N" "rowsum N g row = S"
  shows "partial_ok N S g (Suc row) 0"
  using assms by (auto simp: partial_ok_def before_def less_Suc_eq)

lemma completions_step:
  assumes "square N g'" "row < N" "col < N"
    and "\<And>r c. r < N \<Longrightarrow> c < N \<Longrightarrow> before r c row col \<Longrightarrow> g' ! r ! c = g ! r ! c"
  shows "completions N S g' row (Suc col)
     = {h \<in> completions N S g row col. h ! row ! col = g' ! row ! col}"
proof -
  have b: "before r c row (Suc col) \<longleftrightarrow> before r c row col \<or> (r = row \<and> c = col)" for r c
    by (auto simp: before_def)
  show ?thesis
    unfolding completions_def b using assms(2,3,4) by auto
qed

lemma partial_ok_skip:
  assumes "partial_ok N S g row col" "row < N" "col < N"
  shows "partial_ok N S g row (Suc col)"
  using assms by (auto simp: partial_ok_def before_def)

lemma chebyshev_sym: "chebyshev r c r' c' = chebyshev r' c' r c"
  by (simp add: chebyshev_def abs_minus_commute)

lemma partial_ok_place:
  assumes ok: "partial_ok N S g row col" and row: "row < N" and col: "col < N"
    and valid: "isValidPlacement N g row col"
  shows "partial_ok N S (setCell g row col 1) row (Suc col)"
proof -
  let ?g = "setCell g row col 1"
  have sq: "square N g"
    using ok by (simp add: partial_ok_def)
  have nth: "?g ! r ! c = (if r = row \<and> c = col then 1 else g ! r ! c)" if "r < N" "c < N" for r c
    using sq row col that by (rule setCell_nth)
  have far: "1 < chebyshev row col r c"
    if "r < N" "c < N" "g ! r ! c = 1" "(row, col) \<noteq> (r, c)" for r c
    using valid that unfolding isValidPlacement_iff by (meson not_le)
  have "no_touch N ?g"
    unfolding no_touch_def
  proof (intro allI impI)
    fix r c r' c'
    assume b: "r < N" "c < N" "r' < N" "c' < N"
      and a: "?g ! r ! c = 1 \<and> ?g ! r' ! c' = 1 \<and> (r, c) \<noteq> (r', c')"
    show "1 < chebyshev r c r' c'"
    proof (cases "r = row \<and> c = col")
      case True
      then have "g ! r' ! c' = 1"
        using a b nth by auto
      then show ?thesis
        using far [of r' c'] a b True by auto
    next
      case False
      note first = this
      show ?thesis
      proof (cases "r' = row \<and> c' = col")
        case True
        then have "g ! r ! c = 1"
          using a b nth first by auto
        then have "1 < chebyshev row col r c"
          using far [of r c] a b True by auto
        then show ?thesis
          using True by (simp add: chebyshev_sym)
      next
        case False
        then have "g ! r ! c = 1 \<and> g ! r' ! c' = 1 \<and> (r, c) \<noteq> (r', c')"
          using a b nth first by auto
        then show ?thesis
          using ok b unfolding partial_ok_def no_touch_def by blast
      qed
    qed
  qed
  moreover have "binary N ?g"
    using ok nth unfolding partial_ok_def binary_def by auto
  moreover have "\<forall>r<N. \<forall>c<N. \<not> before r c row (Suc col) \<longrightarrow> ?g ! r ! c = 0"
    using ok nth unfolding partial_ok_def before_def by auto
  moreover have "\<forall>r<row. rowsum N ?g r = S"
  proof (intro allI impI)
    fix r assume r: "r < row"
    have "rowsum N ?g r = rowsum N g r"
      unfolding rowsum_def using r row nth by (intro sum.cong) auto
    then show "rowsum N ?g r = S"
      using ok r by (simp add: partial_ok_def)
  qed
  ultimately show ?thesis
    using sq row col by (simp add: partial_ok_def setCell_square)
qed

lemma no_star_here:
  assumes ok: "partial_ok N S g row col" and row: "row < N" and col: "col < N"
    and no: "\<not> (rowsum N g row < S \<and> isValidPlacement N g row col)"
  shows "{h \<in> completions N S g row col. h ! row ! col = 1} = {}"
proof -
  have False if h: "h \<in> completions N S g row col" and one: "h ! row ! col = 1" for h
  proof (cases "rowsum N g row < S")
    case False
    have "h ! row ! col \<le> (\<Sum>c = col..<N. h ! row ! c)"
      using col by (intro member_le_sum) auto
    then have "rowsum N g row + 1 \<le> rowsum N h row"
      using rowsum_split [OF ok h row] one by simp
    moreover have "rowsum N h row = S"
      using h row by (simp add: completions_def is_configuration_def)
    ultimately show False
      using False by simp
  next
    case True
    with no have "\<not> isValidPlacement N g row col"
      by simp
    then obtain r' c' where b: "r' < N" "c' < N" and ne: "(row, col) \<noteq> (r', c')"
      and near: "chebyshev row col r' c' \<le> 1" and star: "g ! r' ! c' = 1"
      unfolding isValidPlacement_iff by blast
    have "before r' c' row col"
      using ok b star unfolding partial_ok_def by force
    then have "h ! r' ! c' = 1"
      using h b star by (simp add: completions_def)
    moreover have "no_touch N h"
      using h by (simp add: completions_def is_configuration_def)
    ultimately have "1 < chebyshev row col r' c'"
      using one ne b row col unfolding no_touch_def by blast
    with near show False
      by simp
  qed
  then show ?thesis by blast
qed

lemma completions_binary:
  assumes "h \<in> completions N S g row col" "row < N" "col < N"
  shows "h ! row ! col = 0 \<or> h ! row ! col = 1"
  using assms by (simp add: completions_def is_configuration_def binary_def)

subsection \<open>The search returns the completions, each once\<close>

lemma backtrack_completions:
  "partial_ok N S g row col \<Longrightarrow>
   \<exists>L. backtrack N S (g, sols) row col = (g, sols @ L)
      \<and> set L = completions N S g row col \<and> distinct L"
proof (induction N S "(g, sols)" row col arbitrary: g sols rule: backtrack.induct)
  case (1 N S g sols row col)
  note ok = \<open>partial_ok N S g row col\<close>
  have sq: "square N g" and rowN: "row \<le> N" and colN: "col \<le> N"
    using ok by (simp_all add: partial_ok_def)
  have guard: "\<not> (N < row \<or> N < col)"
    using rowN colN by simp
  show ?case
  proof (cases "row = N")
    case True
    then have col0: "col = 0"
      using ok by (simp add: partial_ok_def)
    have c: "completions N S g row col = (if \<forall>c<N. colsum N g c = S then {g} else {})"
      using completions_done [of N S g] ok True col0 by simp
    have "backtrack N S (g, sols) row col
        = (if \<forall>c<N. colsum N g c = S then (g, sols @ [g]) else (g, sols @ []))"
      by (subst backtrack.simps)
        (simp add: True col0 list_all_upt countStarsInColumn_colsum copyGrid_id)
    then show ?thesis
      using c by (cases "\<forall>c<N. colsum N g c = S") auto
  next
    case False
    then have row: "row < N"
      using rowN by simp
    have len: "length (g ! row) = N"
      using sq row by (simp add: square_def)
    note cnt = countStarsInRow_rowsum [OF len] countStarsInColumn_colsum list_all_upt
    show ?thesis
    proof (cases "int S - int (rowsum N g row) > int N - int col")
      case True
      have "backtrack N S (g, sols) row col = (g, sols @ [])"
        by (subst backtrack.simps) (use True False guard in \<open>simp add: cnt Let_def\<close>)
      then show ?thesis
        using completions_row_short [OF ok row True] by auto
    next
      case False
      note enough = this
      show ?thesis
      proof (cases "0 < col \<and> S < colsum N g (col - 1)")
        case True
        then have "col - 1 < N"
          using colN by linarith
        then have e: "completions N S g row col = {}"
          using True by (intro completions_col_over [OF ok]) auto
        have "backtrack N S (g, sols) row col = (g, sols @ [])"
          by (subst backtrack.simps)
            (use True enough \<open>row \<noteq> N\<close> guard in \<open>simp add: cnt Let_def\<close>)
        then show ?thesis
          using e by auto
      next
        case False
        note colok = this
        show ?thesis
        proof (cases "col = N")
          case True
          note atend = this
          show ?thesis
          proof (cases "rowsum N g row = S \<and> (\<forall>c<N. \<not> S < colsum N g c)")
            case False
            have "completions N S g row col = {}"
            proof (cases "rowsum N g row = S")
              case False
              then show ?thesis
                using completions_row_wrong [of N S g row] ok row atend by simp
            next
              case True
              with False obtain c where "c < N" "S < colsum N g c"
                by blast
              then show ?thesis
                by (rule completions_col_over [OF ok])
            qed
            moreover have "backtrack N S (g, sols) row col = (g, sols @ [])"
              by (subst backtrack.simps)
                (use False atend colok enough \<open>row \<noteq> N\<close> guard in \<open>auto simp: cnt Let_def\<close>)
            ultimately show ?thesis
              by auto
          next
            case True
            have ok': "partial_ok N S g (row + 1) 0"
              using partial_ok_next_row [of N S g row] ok row atend True by simp
            have "\<exists>L. backtrack N S (g, sols) (row + 1) 0 = (g, sols @ L)
                \<and> set L = completions N S g (row + 1) 0 \<and> distinct L"
              by (rule "1.hyps"(1) [OF guard \<open>row \<noteq> N\<close> refl refl refl _ _ atend _ _ ok'])
                (use True atend colok enough in \<open>simp_all add: cnt\<close>)
            moreover have "backtrack N S (g, sols) row col = backtrack N S (g, sols) (row + 1) 0"
              by (subst backtrack.simps)
                (use True atend colok enough \<open>row \<noteq> N\<close> guard in \<open>simp add: cnt Let_def\<close>)
            moreover have "completions N S g row col = completions N S g (row + 1) 0"
              using completions_next_row [of N S g row] atend by simp
            ultimately show ?thesis
              by simp
          qed
        next
          case False
          then have col: "col < N"
            using colN by simp
          let ?g1 = "setCell g row col 1"
          let ?can = "rowsum N g row < S \<and> isValidPlacement N g row col"
          have zero: "g ! row ! col = 0"
            using ok row col by (simp add: partial_ok_def before_def)
          have c0: "completions N S g row (Suc col)
              = {h \<in> completions N S g row col. h ! row ! col = 0}"
            using completions_step [OF sq row col, of g S] zero by simp
          have g1: "?g1 ! row ! col = 1"
            using setCell_nth [OF sq row col row col] by simp
          have c1: "completions N S ?g1 row (Suc col)
              = {h \<in> completions N S g row col. h ! row ! col = 1}"
          proof -
            have "?g1 ! r ! c = g ! r ! c" if "r < N" "c < N" "before r c row col" for r c
              using setCell_nth [OF sq row col that(1,2)] that(3) by (auto simp: before_def)
            from completions_step [OF setCell_square [OF sq] row col this, of S] g1
            show ?thesis by simp
          qed
          have split: "completions N S g row col
              = {h \<in> completions N S g row col. h ! row ! col = 1}
                \<union> completions N S g row (Suc col)"
            unfolding c0 using completions_binary [OF _ row col] by blast
          have unfold: "backtrack N S (g, sols) row col =
              backtrack N S
                (if ?can
                 then (case backtrack N S (?g1, sols) row (col + 1) of
                         (grid', solutions') \<Rightarrow> (setCell grid' row col 0, solutions'))
                 else (g, sols))
                row (col + 1)"
            by (subst backtrack.simps)
              (use False colok enough \<open>row \<noteq> N\<close> guard in \<open>auto simp: cnt Let_def\<close>)
          have ok0: "partial_ok N S g row (col + 1)"
            using partial_ok_skip [OF ok row col] by simp
          have pre: "\<not> int N - int col < int S - int (countStarsInRow g row)"
              "\<not> (0 < col \<and> S < countStarsInColumn N g (col - 1))"
            using enough colok by (simp_all add: cnt)
          show ?thesis
          proof (cases ?can)
            case True
            then have can': "countStarsInRow g row < S \<and> isValidPlacement N g row col"
              by (simp add: cnt)
            have ok1: "partial_ok N S ?g1 row (col + 1)"
              using partial_ok_place [OF ok row col] True by simp
            from "1.hyps"(2) [OF guard \<open>row \<noteq> N\<close> refl refl refl pre \<open>col \<noteq> N\<close> can' ok1]
            obtain L1 where L1: "backtrack N S (?g1, sols) row (col + 1) = (?g1, sols @ L1)"
              and s1: "set L1 = completions N S ?g1 row (col + 1)" and d1: "distinct L1"
              by blast
            have st: "(if countStarsInRow g row < S \<and> isValidPlacement N g row col
                 then (case backtrack N S (?g1, sols) row (col + 1) of
                         (grid', solutions') \<Rightarrow> (setCell grid' row col 0, solutions'))
                 else (g, sols)) = (g, sols @ L1)"
              using can' L1 setCell_undo [OF sq row col zero] by simp
            from "1.hyps"(3) [OF guard \<open>row \<noteq> N\<close> refl refl refl pre \<open>col \<noteq> N\<close> st ok0]
            obtain L0 where L0: "backtrack N S (g, sols @ L1) row (col + 1) = (g, (sols @ L1) @ L0)"
              and s0: "set L0 = completions N S g row (col + 1)" and d0: "distinct L0"
              by blast
            have "backtrack N S (g, sols) row col = (g, sols @ (L1 @ L0))"
              using unfold True L1 L0 setCell_undo [OF sq row col zero] by simp
            moreover have "set (L1 @ L0) = completions N S g row col"
              using s1 s0 c1 split by simp
            moreover have "distinct (L1 @ L0)"
              using d1 d0 s1 s0 c1 c0 by auto
            ultimately show ?thesis
              by blast
          next
            case False
            then have can': "\<not> (countStarsInRow g row < S \<and> isValidPlacement N g row col)"
              by (simp add: cnt)
            have st: "(if countStarsInRow g row < S \<and> isValidPlacement N g row col
                 then (case backtrack N S (?g1, sols) row (col + 1) of
                         (grid', solutions') \<Rightarrow> (setCell grid' row col 0, solutions'))
                 else (g, sols)) = (g, sols)"
              using can' by (rule if_not_P)
            from "1.hyps"(3) [OF guard \<open>row \<noteq> N\<close> refl refl refl pre \<open>col \<noteq> N\<close> st ok0]
            obtain L0 where L0: "backtrack N S (g, sols) row (col + 1) = (g, sols @ L0)"
              and s0: "set L0 = completions N S g row (col + 1)" and d0: "distinct L0"
              by blast
            have "backtrack N S (g, sols) row col = (g, sols @ L0)"
              unfolding unfold if_not_P [OF False] by (rule L0)
            moreover have "set L0 = completions N S g row col"
            proof -
              have "completions N S g row col = {} \<union> completions N S g row (Suc col)"
                using split unfolding no_star_here [OF ok row col False] .
              then show ?thesis
                using s0 by simp
            qed
            ultimately show ?thesis
              using d0 by blast
          qed
        qed
      qed
    qed
  qed
qed

lemma partial_ok_start: "partial_ok N S (replicate N (replicate N 0)) 0 0"
  by (auto simp: partial_ok_def square_def binary_def no_touch_def before_def)

lemma completions_start:
  "completions N S g 0 0 = {h. is_configuration N S h}"
  by (simp add: completions_def before_def)

lemma enumerate_result:
  "set (enumerate' N S) = {g. is_configuration N S g} \<and> distinct (enumerate' N S)"
proof -
  obtain L where "backtrack N S (replicate N (replicate N 0), []) 0 0
      = (replicate N (replicate N 0), [] @ L)"
    and "set L = completions N S (replicate N (replicate N 0)) 0 0" and "distinct L"
    using backtrack_completions [OF partial_ok_start, of N S "[]"] by blast
  then show ?thesis
    by (simp add: enumerate'_def completions_start)
qed

lemma enumerate_configurations: "\<forall>s\<in>set (enumerate' N S). is_configuration N S s"
  using enumerate_result [of N S] by simp

text \<open>
  Claim C1. \<open>enumerate(N, S)\<close> returns exactly the configurations for \<open>(N, S)\<close>: every
  returned grid is one, every one is returned, and none is returned twice. The function
  is total, so an impossible \<open>(N, S)\<close> gives the empty list and no error.
\<close>

theorem enumerate_exact:
  "set (enumerate' N S) = {g. is_configuration N S g} \<and> distinct (enumerate' N S)"
  by (rule enumerate_result)

theorem enumerate_exact_witness:
  "enumerate' 4 1 =
     [[[0, 1, 0, 0], [0, 0, 0, 1], [1, 0, 0, 0], [0, 0, 1, 0]],
      [[0, 0, 1, 0], [1, 0, 0, 0], [0, 0, 0, 1], [0, 1, 0, 0]]]
   \<and> {g. is_configuration 4 1 g} =
     {[[0, 1, 0, 0], [0, 0, 0, 1], [1, 0, 0, 0], [0, 0, 1, 0]],
      [[0, 0, 1, 0], [1, 0, 0, 0], [0, 0, 0, 1], [0, 1, 0, 0]]}
   \<and> enumerate' 2 1 = []
   \<and> {g. is_configuration 2 1 g} = {}"
proof -
  have a: "enumerate' 4 1 =
     [[[0, 1, 0, 0], [0, 0, 0, 1], [1, 0, 0, 0], [0, 0, 1, 0]],
      [[0, 0, 1, 0], [1, 0, 0, 0], [0, 0, 0, 1], [0, 1, 0, 0]]]"
    by code_simp
  have b: "enumerate' 2 1 = []"
    by code_simp
  show ?thesis
    using enumerate_exact [of 4 1] enumerate_exact [of 2 1] a b by simp
qed

section \<open>Pattern analyzer\<close>

record Cell =
  row :: nat
  col :: nat

record Pattern =
  initial_stars :: "Cell list"
  compatible_solutions :: nat
  forced_empty :: "Cell list"
  forced_star :: "Cell list"

record Output =
  board_size :: nat
  stars_per_row :: nat
  stars_per_column :: nat
  initial_star_count :: nat
  total_solutions :: nat
  patterns :: "Pattern list"

text \<open>The cell states \<open>'forced_star'\<close>, \<open>'forced_empty'\<close> and \<open>'flexible'\<close>.\<close>

datatype CellState = ForcedStar | ForcedEmpty | Flexible

text \<open>
  \<open>isPatternCompatible\<close> reads \<open>solution[cell.row][cell.col]\<close> at cells that come from
  outside: a row beyond the grid is a \<open>TypeError\<close>, a column beyond the row reads
  \<open>undefined\<close>, which is not 1. The loop returns at the first cell without a star.
\<close>

fun isPatternCompatible :: "Cell list \<Rightarrow> Grid \<Rightarrow> error + bool" where
  "isPatternCompatible [] solution = Inr True"
| "isPatternCompatible (cell # rest) solution =
     (if \<not> row cell < length solution then Inl TypeError
      else if \<not> (col cell < length (solution ! row cell)
                 \<and> solution ! row cell ! col cell = 1) then Inr False
      else isPatternCompatible rest solution)"

text \<open>\<open>xs.filter(p)\<close> where \<open>p\<close> may throw: the first exception ends the filter.\<close>

fun filterE :: "('a \<Rightarrow> error + bool) \<Rightarrow> 'a list \<Rightarrow> error + 'a list" where
  "filterE p [] = Inr []"
| "filterE p (x # xs) =
     (case p x of
        Inl e \<Rightarrow> Inl e
      | Inr b \<Rightarrow> (case filterE p xs of
                    Inl e \<Rightarrow> Inl e
                  | Inr ys \<Rightarrow> Inr (if b then x # ys else ys)))"

text \<open>The key \<open>`${r},${c}`\<close> of a cell in the string sets.\<close>

definition cellKey :: "int \<Rightarrow> int \<Rightarrow> string" where
  "cellKey r c = show_int r @ CHR '','' # show_int c"

definition patternSet :: "Cell list \<Rightarrow> string set" where
  "patternSet pattern = set (map (\<lambda>c. cellKey (int (row c)) (int (col c))) pattern)"

text \<open>
  The keys of the cells on the board that are one of the eight neighbours of a pattern
  star and are not pattern cells themselves.
\<close>

definition adjacentToStars :: "nat \<Rightarrow> Cell list \<Rightarrow> string set" where
  "adjacentToStars boardSize pattern =
     set (concat (map (\<lambda>star. concat (map (\<lambda>dr. concat (map (\<lambda>dc.
        if dr = 0 \<and> dc = 0 then []
        else
          let nr = int (row star) + dr; nc = int (col star) + dc
          in if nr \<ge> 0 \<and> nr < int boardSize \<and> nc \<ge> 0 \<and> nc < int boardSize
             then (let key = cellKey nr nc in if key \<notin> patternSet pattern then [key] else [])
             else [])
        [- 1, 0, 1])) [- 1, 0, 1])) pattern))"

text \<open>
  The analyzer is built for one board with the solutions of that board, which are
  \<open>boardSize \<times> boardSize\<close> grids; the scans below read them at cells of the board.
\<close>

definition cellState :: "nat \<Rightarrow> Grid list \<Rightarrow> Cell list \<Rightarrow> nat \<Rightarrow> nat \<Rightarrow> CellState" where
  "cellState boardSize compatibleSolutions pattern r c =
     (let isInPattern = list_ex (\<lambda>p. row p = r \<and> col p = c) pattern
      in if isInPattern then ForcedStar
         else
           let key = cellKey (int r) (int c)
           in if key \<in> adjacentToStars boardSize pattern then ForcedEmpty
              else
                let starCount = length (filter (\<lambda>sol. sol ! r ! c = 1) compatibleSolutions)
                in if starCount = 0 then ForcedEmpty
                   else if starCount = length compatibleSolutions then ForcedStar
                   else Flexible)"

definition cellStates :: "nat \<Rightarrow> Grid list \<Rightarrow> Cell list \<Rightarrow> CellState list list" where
  "cellStates boardSize compatibleSolutions pattern =
     map (\<lambda>r. map (\<lambda>c. cellState boardSize compatibleSolutions pattern r c) [0..<boardSize])
       [0..<boardSize]"

definition isNonTrivial :: "nat \<Rightarrow> Cell list \<Rightarrow> CellState list list \<Rightarrow> bool" where
  "isNonTrivial boardSize pattern states =
     list_ex (\<lambda>r. list_ex (\<lambda>c.
         cellKey (int r) (int c) \<notin> patternSet pattern
         \<and> (states ! r ! c = ForcedStar \<or> states ! r ! c = ForcedEmpty))
       [0..<boardSize]) [0..<boardSize]"

text \<open>The non-pattern cells of the board in a given state, in row-major order.\<close>

definition cellsInState :: "nat \<Rightarrow> Cell list \<Rightarrow> CellState list list \<Rightarrow> CellState \<Rightarrow> Cell list" where
  "cellsInState boardSize pattern states s =
     concat (map (\<lambda>r. concat (map (\<lambda>c.
         if cellKey (int r) (int c) \<notin> patternSet pattern \<and> states ! r ! c = s
         then [\<lparr>row = r, col = c\<rparr>] else [])
       [0..<boardSize])) [0..<boardSize])"

definition shouldSkipPattern :: "nat \<Rightarrow> Cell list \<Rightarrow> CellState list list \<Rightarrow> bool" where
  "shouldSkipPattern boardSize pattern states =
     (if length pattern = 0 then False
      else
        let adjacentCells = adjacentToStars boardSize pattern;
            allForcedEmpty = cellsInState boardSize pattern states ForcedEmpty;
            allForcedStar = cellsInState boardSize pattern states ForcedStar;
            isAdj = (\<lambda>cell. cellKey (int (row cell)) (int (col cell)) \<in> adjacentCells);
            forcedEmptyAdjacent = filter isAdj allForcedEmpty;
            forcedStarAdjacent = filter isAdj allForcedStar;
            forcedEmptyNotAdjacent = filter (\<lambda>cell. \<not> isAdj cell) allForcedEmpty;
            forcedStarNotAdjacent = filter (\<lambda>cell. \<not> isAdj cell) allForcedStar
        in if length forcedEmptyNotAdjacent = 0 \<and> length forcedStarAdjacent = 0
              \<and> length forcedStarNotAdjacent = 0 \<and> length forcedEmptyAdjacent > 0
           then True
           else
             let firstRow = row (pattern ! 0);
                 allSameRow = list_all (\<lambda>c. row c = firstRow) pattern;
                 firstCol = col (pattern ! 0);
                 allSameCol = list_all (\<lambda>c. col c = firstCol) pattern
             in if allSameRow \<or> allSameCol then
                  (let allForcedEmptyOnLineOrAdjacent =
                         list_all (\<lambda>cell.
                            isAdj cell \<or> (allSameRow \<and> row cell = firstRow)
                            \<or> (allSameCol \<and> col cell = firstCol)) allForcedEmpty
                   in if allForcedEmptyOnLineOrAdjacent \<and> length allForcedEmpty > 0
                         \<and> length allForcedStar = 0
                      then True else False)
                else False)"

definition analyzePattern :: "nat \<Rightarrow> Grid list \<Rightarrow> bool \<Rightarrow> Cell list \<Rightarrow> error + Pattern option" where
  "analyzePattern boardSize solutions includeInherent pattern =
     (case filterE (isPatternCompatible pattern) solutions of
        Inl e \<Rightarrow> Inl e
      | Inr compatibleSolutions \<Rightarrow>
          if length compatibleSolutions = 0 then Inr None
          else
            let states = cellStates boardSize compatibleSolutions pattern
            in if \<not> isNonTrivial boardSize pattern states then Inr None
               else
                 let firstRow = (if length pattern > 0 then int (row (pattern ! 0)) else - 1);
                     firstCol = (if length pattern > 0 then int (col (pattern ! 0)) else - 1);
                     allSameRow = (length pattern > 0
                                   \<and> list_all (\<lambda>c. int (row c) = firstRow) pattern);
                     allSameCol = (length pattern > 0
                                   \<and> list_all (\<lambda>c. int (col c) = firstCol) pattern);
                     forcedEmpty =
                       filter (\<lambda>cell.
                           let key = cellKey (int (row cell)) (int (col cell));
                               isAdjacent = (key \<in> adjacentToStars boardSize pattern);
                               isOnSameLine = ((allSameRow \<and> int (row cell) = firstRow)
                                               \<or> (allSameCol \<and> int (col cell) = firstCol))
                           in includeInherent \<or> (\<not> isAdjacent \<and> \<not> isOnSameLine))
                         (cellsInState boardSize pattern states ForcedEmpty);
                     forcedStar = cellsInState boardSize pattern states ForcedStar
                 in if shouldSkipPattern boardSize pattern states then Inr None
                    else Inr (Some \<lparr>initial_stars = pattern,
                                    compatible_solutions = length compatibleSolutions,
                                    forced_empty = forcedEmpty, forced_star = forcedStar\<rparr>))"

subsection \<open>The reference classification\<close>

text \<open>
  \<open>CompatibleSet\<close>: the solutions with a star at every pattern cell. A cell is forced
  star if it is a star in every member, forced empty if it is a star in none, flexible
  otherwise.
\<close>

definition CompatibleSet :: "Cell list \<Rightarrow> Grid list \<Rightarrow> Grid list" where
  "CompatibleSet pattern solutions =
     filter (\<lambda>s. \<forall>p\<in>set pattern. s ! row p ! col p = 1) solutions"

definition reference_state :: "Cell list \<Rightarrow> Grid list \<Rightarrow> nat \<Rightarrow> nat \<Rightarrow> CellState" where
  "reference_state pattern solutions r c =
     (if \<forall>s\<in>set (CompatibleSet pattern solutions). s ! r ! c = 1 then ForcedStar
      else if \<forall>s\<in>set (CompatibleSet pattern solutions). s ! r ! c \<noteq> 1 then ForcedEmpty
      else Flexible)"

definition in_pattern :: "Cell list \<Rightarrow> nat \<Rightarrow> nat \<Rightarrow> bool" where
  "in_pattern pattern r c \<longleftrightarrow> (\<exists>p\<in>set pattern. row p = r \<and> col p = c)"

definition adjacent :: "Cell list \<Rightarrow> nat \<Rightarrow> nat \<Rightarrow> bool" where
  "adjacent pattern r c \<longleftrightarrow>
     (\<exists>p\<in>set pattern. (row p, col p) \<noteq> (r, c) \<and> chebyshev (row p) (col p) r c \<le> 1)"

definition on_board :: "nat \<Rightarrow> Cell list \<Rightarrow> bool" where
  "on_board N pattern \<longleftrightarrow> (\<forall>p\<in>set pattern. row p < N \<and> col p < N)"

subsection \<open>String keys and cells\<close>

lemma stringify_point: "JSON_stringify (JArr [JNum r, JNum c]) = CHR ''['' # cellKey r c @ '']''"
  by (simp add: cellKey_def)

lemma cellKey_inj:
  assumes "cellKey r c = cellKey r' c'"
  shows "r = r' \<and> c = c'"
proof -
  have "JSON_stringify (JArr [JNum r, JNum c]) = JSON_stringify (JArr [JNum r', JNum c'])"
    unfolding stringify_point using assms by simp
  then have "JArr [JNum r, JNum c] = JArr [JNum r', JNum c']"
    by (rule JSON_stringify_inj)
  then show ?thesis by simp
qed

lemma cellKey_eq_iff: "cellKey r c = cellKey r' c' \<longleftrightarrow> r = r' \<and> c = c'"
  using cellKey_inj by blast

lemma in_patternSet: "cellKey (int r) (int c) \<in> patternSet pattern \<longleftrightarrow> in_pattern pattern r c"
  by (auto simp: patternSet_def in_pattern_def cellKey_eq_iff)

lemma list_ex_in_pattern: "list_ex (\<lambda>p. row p = r \<and> col p = c) pattern \<longleftrightarrow> in_pattern pattern r c"
  by (simp add: list_ex_iff in_pattern_def)

lemma in_concat_map: "x \<in> set (concat (map f xs)) \<longleftrightarrow> (\<exists>y\<in>set xs. x \<in> set (f y))"
  by auto

lemma in_adjacentToStars:
  "cellKey (int r) (int c) \<in> adjacentToStars N pattern \<longleftrightarrow>
     r < N \<and> c < N \<and> \<not> in_pattern pattern r c \<and> adjacent pattern r c"
proof -
  let ?k = "cellKey (int r) (int c)"
  have unfold: "?k \<in> adjacentToStars N pattern \<longleftrightarrow>
      (\<exists>star\<in>set pattern. \<exists>dr\<in>{- 1, 0, 1}. \<exists>dc\<in>{- 1, 0, 1}.
         ?k \<in> set (if dr = 0 \<and> dc = 0 then []
           else let nr = int (row star) + dr; nc = int (col star) + dc
                in if nr \<ge> 0 \<and> nr < int N \<and> nc \<ge> 0 \<and> nc < int N
                   then (let key = cellKey nr nc
                         in if key \<notin> patternSet pattern then [key] else [])
                   else []))"
    unfolding adjacentToStars_def in_concat_map by (simp only: list.set)
  have one: "?k \<in> set (if dr = 0 \<and> dc = 0 then []
           else let nr = int (row star) + dr; nc = int (col star) + dc
                in if nr \<ge> 0 \<and> nr < int N \<and> nc \<ge> 0 \<and> nc < int N
                   then (let key = cellKey nr nc
                         in if key \<notin> patternSet pattern then [key] else [])
                   else [])
      \<longleftrightarrow> \<not> (dr = 0 \<and> dc = 0) \<and> int r = int (row star) + dr \<and> int c = int (col star) + dc
          \<and> r < N \<and> c < N \<and> \<not> in_pattern pattern r c" for star dr dc
  proof (cases "int r = int (row star) + dr \<and> int c = int (col star) + dc")
    case True
    then have e: "int (row star) + dr = int r" "int (col star) + dc = int c"
      by simp_all
    show ?thesis
      unfolding e by (simp add: Let_def in_patternSet)
  next
    case False
    then have "cellKey (int (row star) + dr) (int (col star) + dc) \<noteq> ?k"
      by (auto simp: cellKey_eq_iff)
    then show ?thesis
      using False by (auto simp: Let_def)
  qed
  show ?thesis
  proof
    assume "?k \<in> adjacentToStars N pattern"
    then obtain star dr dc where s: "star \<in> set pattern"
      and d: "dr \<in> {- 1, 0, 1}" "dc \<in> {- 1, 0, 1}"
      and nz: "\<not> (dr = 0 \<and> dc = 0)"
      and e: "int r = int (row star) + dr" "int c = int (col star) + dc"
      and rest: "r < N" "c < N" "\<not> in_pattern pattern r c"
      unfolding unfold one by blast
    have "chebyshev (row star) (col star) r c \<le> 1"
      unfolding near_offsets using d e by blast
    moreover have "(row star, col star) \<noteq> (r, c)"
      using nz e by auto
    ultimately have "adjacent pattern r c"
      using s unfolding adjacent_def by blast
    with rest show "r < N \<and> c < N \<and> \<not> in_pattern pattern r c \<and> adjacent pattern r c"
      by simp
  next
    assume a: "r < N \<and> c < N \<and> \<not> in_pattern pattern r c \<and> adjacent pattern r c"
    then obtain star where s: "star \<in> set pattern" and ne: "(row star, col star) \<noteq> (r, c)"
      and near: "chebyshev (row star) (col star) r c \<le> 1"
      unfolding adjacent_def by blast
    from near obtain dr dc where d: "dr \<in> {- 1, 0, 1}" "dc \<in> {- 1, 0, 1}"
      and e: "int r = int (row star) + dr" "int c = int (col star) + dc"
      unfolding near_offsets by blast
    have "\<not> (dr = 0 \<and> dc = 0)"
      using ne e by auto
    then show "?k \<in> adjacentToStars N pattern"
      unfolding unfold one using s d e a by blast
  qed
qed

subsection \<open>Compatible solutions\<close>

lemma isPatternCompatible_square:
  assumes "square N s" "on_board N pattern"
  shows "isPatternCompatible pattern s = Inr (\<forall>p\<in>set pattern. s ! row p ! col p = 1)"
  using assms(2)
proof (induction pattern)
  case Nil
  then show ?case by simp
next
  case (Cons p ps)
  then have "row p < length s" "col p < length (s ! row p)" "on_board N ps"
    using assms(1) by (auto simp: on_board_def square_def)
  then show ?case
    using Cons.IH by auto
qed

lemma filterE_total:
  assumes "\<And>x. x \<in> set xs \<Longrightarrow> p x = Inr (q x)"
  shows "filterE p xs = Inr (filter q xs)"
  using assms by (induction xs) auto

lemma compatible_filter:
  assumes "\<forall>s\<in>set solutions. square N s" "on_board N pattern"
  shows "filterE (isPatternCompatible pattern) solutions = Inr (CompatibleSet pattern solutions)"
  unfolding CompatibleSet_def
  using assms by (intro filterE_total isPatternCompatible_square) auto

subsection \<open>The state matrix and the lists read from it\<close>

lemma cellStates_nth:
  "r < N \<Longrightarrow> c < N \<Longrightarrow> cellStates N cs pattern ! r ! c = cellState N cs pattern r c"
  by (simp add: cellStates_def)

lemma count_zero_iff: "length (filter P xs) = 0 \<longleftrightarrow> (\<forall>x\<in>set xs. \<not> P x)"
  by (simp add: filter_empty_conv)

lemma count_all_iff: "length (filter P xs) = length xs \<longleftrightarrow> (\<forall>x\<in>set xs. P x)"
  by (metis filter_True filter_id_conv length_filter_less less_irrefl)

lemma cellState_scan:
  assumes "\<not> in_pattern pattern r c" "\<not> (r < N \<and> c < N \<and> adjacent pattern r c)"
  shows "cellState N cs pattern r c =
     (if \<forall>s\<in>set cs. s ! r ! c \<noteq> 1 then ForcedEmpty
      else if \<forall>s\<in>set cs. s ! r ! c = 1 then ForcedStar else Flexible)"
proof -
  have "cellKey (int r) (int c) \<notin> adjacentToStars N pattern"
    using assms(2) by (simp add: in_adjacentToStars)
  then show ?thesis
    using assms(1)
    by (simp add: cellState_def list_ex_in_pattern count_all_iff filter_empty_conv Let_def)
qed

lemma cellState_adjacent:
  assumes "\<not> in_pattern pattern r c" "r < N" "c < N" "adjacent pattern r c"
  shows "cellState N cs pattern r c = ForcedEmpty"
  using assms by (simp add: cellState_def list_ex_in_pattern in_adjacentToStars Let_def)

lemma cellState_in_pattern: "in_pattern pattern r c \<Longrightarrow> cellState N cs pattern r c = ForcedStar"
  by (simp add: cellState_def list_ex_in_pattern)

lemma cellsInState_set:
  "set (cellsInState N pattern states s) =
     {\<lparr>row = r, col = c\<rparr> | r c. r < N \<and> c < N \<and> \<not> in_pattern pattern r c \<and> states ! r ! c = s}"
  unfolding cellsInState_def by (auto simp: in_patternSet)

lemma isNonTrivial_iff:
  "isNonTrivial N pattern states \<longleftrightarrow>
     (\<exists>r<N. \<exists>c<N. \<not> in_pattern pattern r c
        \<and> (states ! r ! c = ForcedStar \<or> states ! r ! c = ForcedEmpty))"
  unfolding isNonTrivial_def list_ex_iff by (simp add: in_patternSet Bex_def)

subsection \<open>The adjacency shortcut agrees with the reference\<close>

lemma adjacent_is_empty:
  assumes "is_configuration N S s" "on_board N pattern" "\<forall>p\<in>set pattern. s ! row p ! col p = 1"
    and "r < N" "c < N" "adjacent pattern r c"
  shows "s ! r ! c \<noteq> 1"
proof
  assume star: "s ! r ! c = 1"
  from assms(6) obtain p where p: "p \<in> set pattern" and ne: "(row p, col p) \<noteq> (r, c)"
    and near: "chebyshev (row p) (col p) r c \<le> 1"
    unfolding adjacent_def by blast
  have "row p < N" "col p < N" "s ! row p ! col p = 1"
    using p assms(2,3) by (auto simp: on_board_def)
  moreover have "no_touch N s"
    using assms(1) by (simp add: is_configuration_def)
  ultimately have "1 < chebyshev (row p) (col p) r c"
    using star ne assms(4,5) unfolding no_touch_def by blast
  with near show False by simp
qed

text \<open>
  Claim C5. For a realizable pattern on the board and solutions that are configurations:
  every cell adjacent to a pattern star is empty in every compatible solution, so the
  state \<open>analyzePattern\<close> computes for any non-pattern cell, with adjacent cells marked
  forced empty without a scan, is the state of the reference classification.
\<close>

theorem adjacency_shortcut_is_reference:
  assumes conf: "\<forall>s\<in>set solutions. is_configuration N S s"
    and board: "on_board N pattern"
    and real: "CompatibleSet pattern solutions \<noteq> []"
    and cell: "r < N" "c < N" "\<not> in_pattern pattern r c"
  shows "filterE (isPatternCompatible pattern) solutions = Inr (CompatibleSet pattern solutions)
       \<and> (adjacent pattern r c \<longrightarrow> (\<forall>s\<in>set (CompatibleSet pattern solutions). s ! r ! c \<noteq> 1))
       \<and> cellStates N (CompatibleSet pattern solutions) pattern ! r ! c
           = reference_state pattern solutions r c"
proof -
  let ?cs = "CompatibleSet pattern solutions"
  have sq: "\<forall>s\<in>set solutions. square N s"
    using conf by (simp add: is_configuration_def)
  have f: "filterE (isPatternCompatible pattern) solutions = Inr ?cs"
    using sq board by (rule compatible_filter)
  have adj: "\<forall>s\<in>set ?cs. s ! r ! c \<noteq> 1" if "adjacent pattern r c"
  proof
    fix s assume "s \<in> set ?cs"
    then have "is_configuration N S s" "\<forall>p\<in>set pattern. s ! row p ! col p = 1"
      using conf by (auto simp: CompatibleSet_def)
    then show "s ! r ! c \<noteq> 1"
      by (rule adjacent_is_empty [OF _ board _ cell(1,2) that])
  qed
  obtain s0 where s0: "s0 \<in> set ?cs"
    using real by (cases ?cs) auto
  have excl: "\<not> ((\<forall>s\<in>set ?cs. s ! r ! c = 1) \<and> (\<forall>s\<in>set ?cs. s ! r ! c \<noteq> 1))"
    using s0 by blast
  have "cellState N ?cs pattern r c = reference_state pattern solutions r c"
  proof (cases "adjacent pattern r c")
    case True
    have "cellState N ?cs pattern r c = ForcedEmpty"
      using cell(3,1,2) True by (rule cellState_adjacent)
    moreover have "reference_state pattern solutions r c = ForcedEmpty"
      using adj [OF True] excl by (simp add: reference_state_def)
    ultimately show ?thesis by simp
  next
    case False
    then have "cellState N ?cs pattern r c =
       (if \<forall>s\<in>set ?cs. s ! r ! c \<noteq> 1 then ForcedEmpty
        else if \<forall>s\<in>set ?cs. s ! r ! c = 1 then ForcedStar else Flexible)"
      using cell(3) by (intro cellState_scan) auto
    then show ?thesis
      using excl by (auto simp: reference_state_def)
  qed
  then have "cellStates N ?cs pattern ! r ! c = reference_state pattern solutions r c"
    using cell(1,2) by (simp add: cellStates_nth)
  with f adj show ?thesis
    by blast
qed

theorem adjacency_shortcut_is_reference_witness:
  "CompatibleSet [\<lparr>row = 0, col = 1\<rparr>] (enumerate' 4 1)
     = [[[0, 1, 0, 0], [0, 0, 0, 1], [1, 0, 0, 0], [0, 0, 1, 0]]]
   \<and> adjacent [\<lparr>row = 0, col = 1\<rparr>] 1 2
   \<and> cellStates 4 (CompatibleSet [\<lparr>row = 0, col = 1\<rparr>] (enumerate' 4 1))
        [\<lparr>row = 0, col = 1\<rparr>] ! 1 ! 2 = ForcedEmpty
   \<and> reference_state [\<lparr>row = 0, col = 1\<rparr>] (enumerate' 4 1) 1 2 = ForcedEmpty
   \<and> cellStates 4 (CompatibleSet [\<lparr>row = 0, col = 1\<rparr>] (enumerate' 4 1))
        [\<lparr>row = 0, col = 1\<rparr>] ! 1 ! 3 = ForcedStar
   \<and> reference_state [\<lparr>row = 0, col = 1\<rparr>] (enumerate' 4 1) 1 3 = ForcedStar"
proof -
  let ?p = "[\<lparr>row = 0, col = 1\<rparr>]"
  have e: "enumerate' 4 1 =
     [[[0, 1, 0, 0], [0, 0, 0, 1], [1, 0, 0, 0], [0, 0, 1, 0]],
      [[0, 0, 1, 0], [1, 0, 0, 0], [0, 0, 0, 1], [0, 1, 0, 0]]]"
    by code_simp
  have cs: "CompatibleSet ?p (enumerate' 4 1)
     = [[[0, 1, 0, 0], [0, 0, 0, 1], [1, 0, 0, 0], [0, 0, 1, 0]]]"
    unfolding e by (simp add: CompatibleSet_def)
  have real: "CompatibleSet ?p (enumerate' 4 1) \<noteq> []"
    unfolding cs by simp
  have board: "on_board 4 ?p"
    by (simp add: on_board_def)
  have adj: "adjacent ?p 1 2"
    by (simp add: adjacent_def chebyshev_def)
  have np: "\<not> in_pattern ?p 1 2" "\<not> in_pattern ?p 1 3"
    by (simp_all add: in_pattern_def)
  have r2: "reference_state ?p (enumerate' 4 1) 1 2 = ForcedEmpty"
    unfolding reference_state_def cs by simp
  have r3: "reference_state ?p (enumerate' 4 1) 1 3 = ForcedStar"
    unfolding reference_state_def cs by simp
  from adjacency_shortcut_is_reference [OF enumerate_configurations board real _ _ np(1)]
    adjacency_shortcut_is_reference [OF enumerate_configurations board real _ _ np(2)]
  show ?thesis
    using cs adj r2 r3 by simp
qed

subsection \<open>When the analyzer gives no result\<close>

text \<open>
  A pattern is trivial when no cell outside it is forced, or when the forced cells are
  explained by the two skip rules: only forced-empty cells adjacent to a pattern star;
  or, the stars sharing one row or column, only forced-empty cells that are adjacent or
  on that line.
\<close>

definition nothing_forced :: "nat \<Rightarrow> Cell list \<Rightarrow> CellState list list \<Rightarrow> bool" where
  "nothing_forced N pattern states \<longleftrightarrow>
     (\<forall>r<N. \<forall>c<N. \<not> in_pattern pattern r c \<longrightarrow> states ! r ! c = Flexible)"

definition only_adjacent_forced :: "nat \<Rightarrow> Cell list \<Rightarrow> CellState list list \<Rightarrow> bool" where
  "only_adjacent_forced N pattern states \<longleftrightarrow>
     pattern \<noteq> []
     \<and> (\<forall>r<N. \<forall>c<N. \<not> in_pattern pattern r c \<longrightarrow>
           states ! r ! c \<noteq> ForcedStar
         \<and> (states ! r ! c = ForcedEmpty \<longrightarrow> adjacent pattern r c))"

definition only_line_forced :: "nat \<Rightarrow> Cell list \<Rightarrow> CellState list list \<Rightarrow> bool" where
  "only_line_forced N pattern states \<longleftrightarrow>
     pattern \<noteq> []
     \<and> ((\<forall>p\<in>set pattern. row p = row (hd pattern)) \<or> (\<forall>p\<in>set pattern. col p = col (hd pattern)))
     \<and> (\<forall>r<N. \<forall>c<N. \<not> in_pattern pattern r c \<longrightarrow>
           states ! r ! c \<noteq> ForcedStar
         \<and> (states ! r ! c = ForcedEmpty \<longrightarrow>
               adjacent pattern r c
             \<or> ((\<forall>p\<in>set pattern. row p = row (hd pattern)) \<and> r = row (hd pattern))
             \<or> ((\<forall>p\<in>set pattern. col p = col (hd pattern)) \<and> c = col (hd pattern))))"

lemma isAdj_cell:
  "r < N \<Longrightarrow> c < N \<Longrightarrow> \<not> in_pattern pattern r c \<Longrightarrow>
   cellKey (int r) (int c) \<in> adjacentToStars N pattern \<longleftrightarrow> adjacent pattern r c"
  by (simp add: in_adjacentToStars)

lemma shouldSkip_line:
  assumes line: "only_line_forced N pattern states" and nt: "isNonTrivial N pattern states"
  shows "shouldSkipPattern N pattern states"
proof -
  let ?FE = "cellsInState N pattern states ForcedEmpty"
  let ?FS = "cellsInState N pattern states ForcedStar"
  have ne: "pattern \<noteq> []"
    using line by (simp add: only_line_forced_def)
  then have hd: "pattern ! 0 = hd pattern"
    by (simp add: hd_conv_nth)
  have noFS: "?FS = []"
  proof -
    have "set ?FS = {}"
      unfolding cellsInState_set using line by (auto simp: only_line_forced_def)
    then show ?thesis by simp
  qed
  obtain r c where rc: "r < N" "c < N" "\<not> in_pattern pattern r c"
    and forced: "states ! r ! c = ForcedStar \<or> states ! r ! c = ForcedEmpty"
    using nt unfolding isNonTrivial_iff by blast
  then have "states ! r ! c = ForcedEmpty"
    using line by (auto simp: only_line_forced_def)
  then have "\<lparr>row = r, col = c\<rparr> \<in> set ?FE"
    unfolding cellsInState_set using rc by blast
  then have someFE: "length ?FE > 0"
    by (cases ?FE) auto
  have same: "(\<forall>p\<in>set pattern. row p = row (hd pattern))
      \<or> (\<forall>p\<in>set pattern. col p = col (hd pattern))"
    using line unfolding only_line_forced_def by blast
  have all: "\<forall>cell\<in>set ?FE.
        cellKey (int (row cell)) (int (col cell)) \<in> adjacentToStars N pattern
        \<or> ((\<forall>p\<in>set pattern. row p = row (hd pattern)) \<and> row cell = row (hd pattern))
        \<or> ((\<forall>p\<in>set pattern. col p = col (hd pattern)) \<and> col cell = col (hd pattern))"
  proof
    fix cell assume "cell \<in> set ?FE"
    then obtain r c where cell: "cell = \<lparr>row = r, col = c\<rparr>" and b: "r < N" "c < N"
      and np: "\<not> in_pattern pattern r c" and fe: "states ! r ! c = ForcedEmpty"
      unfolding cellsInState_set by blast
    have "adjacent pattern r c
        \<or> ((\<forall>p\<in>set pattern. row p = row (hd pattern)) \<and> r = row (hd pattern))
        \<or> ((\<forall>p\<in>set pattern. col p = col (hd pattern)) \<and> c = col (hd pattern))"
      using line b np fe unfolding only_line_forced_def by blast
    then show "cellKey (int (row cell)) (int (col cell)) \<in> adjacentToStars N pattern
        \<or> ((\<forall>p\<in>set pattern. row p = row (hd pattern)) \<and> row cell = row (hd pattern))
        \<or> ((\<forall>p\<in>set pattern. col p = col (hd pattern)) \<and> col cell = col (hd pattern))"
      unfolding cell using isAdj_cell [OF b np] by auto
  qed
  show ?thesis
    unfolding shouldSkipPattern_def Let_def list_all_iff hd
    using ne noFS someFE same all by auto
qed

lemma only_adjacent_line:
  assumes adj: "only_adjacent_forced N pattern states" and nt: "isNonTrivial N pattern states"
  shows "shouldSkipPattern N pattern states"
proof -
  let ?A = "adjacentToStars N pattern"
  let ?isAdj = "\<lambda>cell. cellKey (int (row cell)) (int (col cell)) \<in> ?A"
  let ?FE = "cellsInState N pattern states ForcedEmpty"
  let ?FS = "cellsInState N pattern states ForcedStar"
  have ne: "pattern \<noteq> []"
    using adj by (simp add: only_adjacent_forced_def)
  have noFS: "?FS = []"
  proof -
    have "set ?FS = {}"
      unfolding cellsInState_set using adj by (auto simp: only_adjacent_forced_def)
    then show ?thesis by simp
  qed
  have allAdj: "\<forall>cell\<in>set ?FE. ?isAdj cell"
  proof
    fix cell assume "cell \<in> set ?FE"
    then obtain r c where cell: "cell = \<lparr>row = r, col = c\<rparr>" and b: "r < N" "c < N"
      and np: "\<not> in_pattern pattern r c" and fe: "states ! r ! c = ForcedEmpty"
      unfolding cellsInState_set by blast
    have "adjacent pattern r c"
      using adj b np fe unfolding only_adjacent_forced_def by blast
    then show "?isAdj cell"
      unfolding cell using isAdj_cell [OF b np] by simp
  qed
  obtain r c where rc: "r < N" "c < N" "\<not> in_pattern pattern r c"
    and forced: "states ! r ! c = ForcedStar \<or> states ! r ! c = ForcedEmpty"
    using nt unfolding isNonTrivial_iff by blast
  then have "states ! r ! c = ForcedEmpty"
    using adj by (auto simp: only_adjacent_forced_def)
  then have mem: "\<lparr>row = r, col = c\<rparr> \<in> set ?FE"
    unfolding cellsInState_set using rc by blast
  have f1: "filter (\<lambda>cell. \<not> ?isAdj cell) ?FE = []"
    using allAdj by (simp add: filter_empty_conv)
  have f2: "filter ?isAdj ?FE = ?FE"
    using allAdj by (simp add: filter_id_conv)
  have f3: "length ?FE > 0"
    using mem by (cases ?FE) auto
  show ?thesis
    unfolding shouldSkipPattern_def Let_def using ne noFS f1 f2 f3 by simp
qed

text \<open>
  Claim C9. For a pattern on the board and solutions of that board, \<open>analyzePattern\<close>
  does not raise; it returns null when the compatible set is empty and when the pattern
  is trivial in any of the three senses; and a non-null result means that some solution
  is compatible.
\<close>

theorem analyzePattern_null_cases:
  assumes "\<forall>s\<in>set solutions. square N s" and "on_board N pattern"
  shows "\<exists>res. analyzePattern N solutions includeInherent pattern = Inr res
       \<and> (CompatibleSet pattern solutions = [] \<longrightarrow> res = None)
       \<and> (nothing_forced N pattern (cellStates N (CompatibleSet pattern solutions) pattern)
            \<longrightarrow> res = None)
       \<and> (only_adjacent_forced N pattern (cellStates N (CompatibleSet pattern solutions) pattern)
            \<longrightarrow> res = None)
       \<and> (only_line_forced N pattern (cellStates N (CompatibleSet pattern solutions) pattern)
            \<longrightarrow> res = None)
       \<and> (res \<noteq> None \<longrightarrow> CompatibleSet pattern solutions \<noteq> [])"
proof -
  let ?cs = "CompatibleSet pattern solutions"
  let ?st = "cellStates N ?cs pattern"
  have f: "filterE (isPatternCompatible pattern) solutions = Inr ?cs"
    using assms by (rule compatible_filter)
  show ?thesis
  proof (cases "?cs = []")
    case True
    then have "analyzePattern N solutions includeInherent pattern = Inr None"
      by (simp add: analyzePattern_def f)
    then show ?thesis
      using True by simp
  next
    case False
    note real = this
    show ?thesis
    proof (cases "isNonTrivial N pattern ?st")
      case False
      then have "analyzePattern N solutions includeInherent pattern = Inr None"
        by (simp add: analyzePattern_def f Let_def)
      then show ?thesis by simp
    next
      case True
      have nf: "\<not> nothing_forced N pattern ?st"
        using True unfolding isNonTrivial_iff nothing_forced_def by force
      show ?thesis
      proof (cases "shouldSkipPattern N pattern ?st")
        case True
        then have "analyzePattern N solutions includeInherent pattern = Inr None"
          by (simp add: analyzePattern_def f Let_def)
        then show ?thesis by simp
      next
        case False
        have "\<not> only_adjacent_forced N pattern ?st" "\<not> only_line_forced N pattern ?st"
          using False True only_adjacent_line shouldSkip_line by blast+
        moreover have "\<exists>res. analyzePattern N solutions includeInherent pattern = Inr res"
          using False \<open>isNonTrivial N pattern ?st\<close> real
          by (simp add: analyzePattern_def f Let_def)
        ultimately show ?thesis
          using nf real by auto
      qed
    qed
  qed
qed

theorem analyzePattern_null_cases_witness:
  "analyzePattern 4 (enumerate' 4 1) False [\<lparr>row = 0, col = 0\<rparr>] = Inr None
   \<and> CompatibleSet [\<lparr>row = 0, col = 0\<rparr>] (enumerate' 4 1) = []
   \<and> analyzePattern 4 (enumerate' 4 1) False [\<lparr>row = 0, col = 1\<rparr>] =
       Inr (Some \<lparr>initial_stars = [\<lparr>row = 0, col = 1\<rparr>], compatible_solutions = 1,
                  forced_empty = [\<lparr>row = 2, col = 2\<rparr>, \<lparr>row = 2, col = 3\<rparr>,
                                  \<lparr>row = 3, col = 0\<rparr>, \<lparr>row = 3, col = 3\<rparr>],
                  forced_star = [\<lparr>row = 1, col = 3\<rparr>, \<lparr>row = 2, col = 0\<rparr>,
                                 \<lparr>row = 3, col = 2\<rparr>]\<rparr>)
   \<and> CompatibleSet [\<lparr>row = 0, col = 1\<rparr>] (enumerate' 4 1) \<noteq> []"
proof -
  have e: "enumerate' 4 1 =
     [[[0, 1, 0, 0], [0, 0, 0, 1], [1, 0, 0, 0], [0, 0, 1, 0]],
      [[0, 0, 1, 0], [1, 0, 0, 0], [0, 0, 0, 1], [0, 1, 0, 0]]]"
    by code_simp
  have sq: "\<forall>s\<in>set (enumerate' 4 1). square 4 s"
    using enumerate_configurations [of 4 1] by (simp add: is_configuration_def)
  have b0: "on_board 4 [\<lparr>row = 0, col = 0\<rparr>]" and b1: "on_board 4 [\<lparr>row = 0, col = 1\<rparr>]"
    by (simp_all add: on_board_def)
  have c0: "CompatibleSet [\<lparr>row = 0, col = 0\<rparr>] (enumerate' 4 1) = []"
    unfolding e by (simp add: CompatibleSet_def)
  have a1: "analyzePattern 4 (enumerate' 4 1) False [\<lparr>row = 0, col = 1\<rparr>] =
       Inr (Some \<lparr>initial_stars = [\<lparr>row = 0, col = 1\<rparr>], compatible_solutions = 1,
                  forced_empty = [\<lparr>row = 2, col = 2\<rparr>, \<lparr>row = 2, col = 3\<rparr>,
                                  \<lparr>row = 3, col = 0\<rparr>, \<lparr>row = 3, col = 3\<rparr>],
                  forced_star = [\<lparr>row = 1, col = 3\<rparr>, \<lparr>row = 2, col = 0\<rparr>,
                                 \<lparr>row = 3, col = 2\<rparr>]\<rparr>)"
    by code_simp
  from analyzePattern_null_cases [OF sq b0, of False] analyzePattern_null_cases [OF sq b1, of False]
  show ?thesis
    using c0 a1 by auto
qed

section \<open>Pure entanglement templates\<close>

text \<open>\<open>Map<string, V>\<close>: string keys in insertion order; \<open>set\<close> keeps the place of a key.\<close>

type_synonym 'v jsmap = "(string \<times> 'v) list"

fun map_set :: "string \<Rightarrow> 'v \<Rightarrow> 'v jsmap \<Rightarrow> 'v jsmap" where
  "map_set k v [] = [(k, v)]"
| "map_set k v ((k', v') # m) = (if k = k' then (k, v) # m else (k', v') # map_set k v m)"

text \<open>A cell \<open>{row, col}\<close> as the point \<open>[cell.row, cell.col]\<close>.\<close>

definition pointOfCell :: "Cell \<Rightarrow> Point" where
  "pointOfCell cell = (int (row cell), int (col cell))"

text \<open>\<open>JSON.parse\<close> of a key, read as \<open>Point[]\<close>.\<close>

definition parsePoints :: "string \<Rightarrow> error + Point list" where
  "parsePoints s =
     (case JSON_parse s of
        Inl e \<Rightarrow> Inl e
      | Inr v \<Rightarrow> (case points_of_json v of None \<Rightarrow> Inl TypeError | Some ps \<Rightarrow> Inr ps))"

record StarClass =
  occurrenceCount :: nat
  emptiesMap :: "nat jsmap"

record CanonicalGeometry =
  canonical_stars :: "Point list"
  canonical_forced_empty :: "Point list"

record PureEntanglementTemplate = CanonicalGeometry +
  occurrences :: nat

record PureEntanglementOutput =
  pure_board_size :: nat
  pure_initial_stars :: nat
  pure_entanglement_templates :: "PureEntanglementTemplate list"

text \<open>The update of \<open>starClasses\<close> for one pattern, given its two keys.\<close>

definition updateStarClass :: "string \<Rightarrow> string \<Rightarrow> StarClass jsmap \<Rightarrow> StarClass jsmap" where
  "updateStarClass starKey emptiesKey starClasses =
     (let starClass = (case map_of starClasses starKey of
                         None \<Rightarrow> \<lparr>occurrenceCount = 0, emptiesMap = []\<rparr>
                       | Some sc \<Rightarrow> sc)
      in map_set starKey
           \<lparr>occurrenceCount = occurrenceCount starClass + 1,
            emptiesMap = map_set emptiesKey
               ((case map_of (emptiesMap starClass) emptiesKey of None \<Rightarrow> 0 | Some n \<Rightarrow> n) + 1)
               (emptiesMap starClass)\<rparr>
           starClasses)"

text \<open>The first loop of the star-pair extractor; \<open>canonicalizeStars\<close> may throw.\<close>

fun collectStarClasses :: "Pattern list \<Rightarrow> StarClass jsmap \<Rightarrow> error + StarClass jsmap" where
  "collectStarClasses [] starClasses = Inr starClasses"
| "collectStarClasses (pattern # rest) starClasses =
     (let initialStars = map pointOfCell (initial_stars pattern);
          forcedEmpty = map pointOfCell (forced_empty pattern)
      in case canonicalizeStars initialStars of
           Inl e \<Rightarrow> Inl e
         | Inr res \<Rightarrow>
             (case canonicalizeEmpties forcedEmpty (transformIndex res) (translation res) of
                Inl e \<Rightarrow> Inl e
              | Inr canonicalEmpties \<Rightarrow>
                  collectStarClasses rest
                    (updateStarClass (JSON_stringify (json_of_points (canonicalStars res)))
                       (JSON_stringify (json_of_points canonicalEmpties)) starClasses)))"

text \<open>The second loop: the star classes with one forced-empty value and enough occurrences.\<close>

fun pureTemplates :: "int \<Rightarrow> StarClass jsmap \<Rightarrow> error + PureEntanglementTemplate list" where
  "pureTemplates minOccurrences [] = Inr []"
| "pureTemplates minOccurrences ((starKey, starClass) # rest) =
     (let distinctForcedPatterns = length (emptiesMap starClass);
          totalOccurrences = occurrenceCount starClass
      in if distinctForcedPatterns = 1 \<and> int totalOccurrences \<ge> minOccurrences then
           (let emptiesKey = fst (emptiesMap starClass ! 0)
            in case parsePoints starKey of
                 Inl e \<Rightarrow> Inl e
               | Inr canonicalStars' \<Rightarrow>
                   (case parsePoints emptiesKey of
                      Inl e \<Rightarrow> Inl e
                    | Inr canonicalForcedEmpty \<Rightarrow>
                        (case pureTemplates minOccurrences rest of
                           Inl e \<Rightarrow> Inl e
                         | Inr ts \<Rightarrow>
                             Inr (\<lparr>canonical_stars = canonicalStars',
                                   canonical_forced_empty = canonicalForcedEmpty,
                                   occurrences = totalOccurrences\<rparr> # ts))))
         else pureTemplates minOccurrences rest)"

text \<open>
  The final sort: by occurrences descending, then by \<open>localeCompare\<close> of the stringified
  stars. \<open>localeCompare\<close> depends on the locale of the host and is a parameter.
\<close>

definition compareTemplates ::
  "(string \<Rightarrow> string \<Rightarrow> int) \<Rightarrow> PureEntanglementTemplate \<Rightarrow> PureEntanglementTemplate \<Rightarrow> int" where
  "compareTemplates localeCompare a b =
     (if occurrences b \<noteq> occurrences a then int (occurrences b) - int (occurrences a)
      else localeCompare (JSON_stringify (json_of_points (canonical_stars a)))
             (JSON_stringify (json_of_points (canonical_stars b))))"

definition extractPureEntanglements_pair ::
  "(string \<Rightarrow> string \<Rightarrow> int) \<Rightarrow> Output \<Rightarrow> int \<Rightarrow> error + PureEntanglementOutput" where
  "extractPureEntanglements_pair localeCompare output minOccurrences =
     (case collectStarClasses (patterns output) [] of
        Inl e \<Rightarrow> Inl e
      | Inr starClasses \<Rightarrow>
          (case pureTemplates minOccurrences starClasses of
             Inl e \<Rightarrow> Inl e
           | Inr pureEntanglementTemplates \<Rightarrow>
               Inr \<lparr>pure_board_size = board_size output,
                    pure_initial_stars = initial_star_count output,
                    pure_entanglement_templates =
                      sort_by (compareTemplates localeCompare) pureEntanglementTemplates\<rparr>))"

subsection \<open>The generic extractor: any number of stars\<close>

text \<open>
  The later version of the extractor canonicalizes stars and forced-empty cells with
  \<open>canonicalize\<close> and skips the patterns without stars; the rest is the same.
\<close>

fun collectStarClasses_generic :: "Pattern list \<Rightarrow> StarClass jsmap \<Rightarrow> error + StarClass jsmap" where
  "collectStarClasses_generic [] starClasses = Inr starClasses"
| "collectStarClasses_generic (pattern # rest) starClasses =
     (let initialStars = map pointOfCell (initial_stars pattern)
      in if length initialStars = 0 then collectStarClasses_generic rest starClasses
         else
           let forcedEmpty = map pointOfCell (forced_empty pattern)
           in case canonicalize initialStars forcedEmpty of
                Inl e \<Rightarrow> Inl e
              | Inr res \<Rightarrow>
                  collectStarClasses_generic rest
                    (updateStarClass (JSON_stringify (json_of_points (canonicalStars res)))
                       (JSON_stringify (json_of_points (canonicalCells res))) starClasses))"

definition extractPureEntanglements ::
  "(string \<Rightarrow> string \<Rightarrow> int) \<Rightarrow> Output \<Rightarrow> int \<Rightarrow> error + PureEntanglementOutput" where
  "extractPureEntanglements localeCompare output minOccurrences =
     (case collectStarClasses_generic (patterns output) [] of
        Inl e \<Rightarrow> Inl e
      | Inr starClasses \<Rightarrow>
          (case pureTemplates minOccurrences starClasses of
             Inl e \<Rightarrow> Inl e
           | Inr pureEntanglementTemplates \<Rightarrow>
               Inr \<lparr>pure_board_size = board_size output,
                    pure_initial_stars = initial_star_count output,
                    pure_entanglement_templates =
                      sort_by (compareTemplates localeCompare) pureEntanglementTemplates\<rparr>))"

subsection \<open>Maps, keys and the sort\<close>

lemma map_of_map_set: "map_of (map_set k v m) = (map_of m)(k \<mapsto> v)"
  by (induction m) (auto simp: fun_eq_iff)

lemma map_fst_map_set:
  "map fst (map_set k v m) = (if k \<in> set (map fst m) then map fst m else map fst m @ [k])"
  by (induction m) (force simp: image_iff)+

lemma fst_set_map_set: "fst ` set (map_set k v m) = insert k (fst ` set m)"
  using arg_cong [OF map_fst_map_set [of k v m], of set] by (auto split: if_splits)

lemma distinct_map_set: "distinct (map fst m) \<Longrightarrow> distinct (map fst (map_set k v m))"
  unfolding map_fst_map_set by simp

lemma mset_insert_by: "mset (insert_by cmp x xs) = add_mset x (mset xs)"
  by (induction xs) simp_all

lemma mset_sort_by: "mset (sort_by cmp xs) = mset xs"
  by (induction xs) (simp_all add: sort_by_def mset_insert_by)

lemma set_sort_by: "set (sort_by cmp xs) = set xs"
  using mset_sort_by [of cmp xs] by (metis set_mset_mset)

lemma those_points_json: "those_points (map json_of_point ps) = Some ps"
  by (induction ps) (simp_all add: json_of_point_def)

lemma parsePoints_stringify: "parsePoints (JSON_stringify (json_of_points ps)) = Inr ps"
proof -
  have "points_of_json (json_of_points ps) = Some ps"
    by (simp add: json_of_points_def those_points_json)
  then show ?thesis
    unfolding parsePoints_def JSON_parse_stringify by simp
qed

definition pointsKey :: "Point list \<Rightarrow> string" where
  "pointsKey ps = JSON_stringify (json_of_points ps)"

lemma pointsKey_eq_iff: "pointsKey ps = pointsKey qs \<longleftrightarrow> ps = qs"
  unfolding pointsKey_def using JSON_stringify_inj json_of_points_inj by blast

subsection \<open>What the first loop has counted\<close>

text \<open>
  After the keys \<open>ks\<close> of the patterns seen so far, the map has one class per star key,
  holding the number of patterns with that star key and one entry per forced-empty key
  seen with it.
\<close>

definition tally :: "(string \<times> string) list \<Rightarrow> string \<Rightarrow> StarClass \<Rightarrow> bool" where
  "tally ks sk cls \<longleftrightarrow>
     occurrenceCount cls = length (filter (\<lambda>k. fst k = sk) ks)
     \<and> distinct (map fst (emptiesMap cls))
     \<and> fst ` set (emptiesMap cls) = snd ` set (filter (\<lambda>k. fst k = sk) ks)"

definition tallies :: "StarClass jsmap \<Rightarrow> (string \<times> string) list \<Rightarrow> bool" where
  "tallies m ks \<longleftrightarrow>
     distinct (map fst m)
     \<and> (\<forall>sk. case map_of m sk of
               None \<Rightarrow> sk \<notin> fst ` set ks
             | Some cls \<Rightarrow> sk \<in> fst ` set ks \<and> tally ks sk cls)"

lemma tallies_empty: "tallies [] []"
  by (simp add: tallies_def)

lemma tallies_None: "tallies m ks \<Longrightarrow> map_of m sk = None \<Longrightarrow> sk \<notin> fst ` set ks"
  unfolding tallies_def by (erule conjE, drule spec [of _ sk]) simp

lemma tallies_Some:
  "tallies m ks \<Longrightarrow> map_of m sk = Some cls \<Longrightarrow> sk \<in> fst ` set ks \<and> tally ks sk cls"
  unfolding tallies_def by (erule conjE, drule spec [of _ sk]) simp

lemma tally_fresh:
  assumes "sk \<notin> fst ` set ks"
  shows "tally ks sk \<lparr>occurrenceCount = 0, emptiesMap = []\<rparr>"
proof -
  have "filter (\<lambda>k. fst k = sk) ks = []"
    using assms by (force simp: filter_empty_conv)
  then show ?thesis
    by (simp add: tally_def)
qed

lemma tally_same:
  assumes "tally ks sk old"
  shows "tally (ks @ [(sk, ek)]) sk
     \<lparr>occurrenceCount = occurrenceCount old + 1,
      emptiesMap = map_set ek n (emptiesMap old)\<rparr>"
  using assms by (simp add: tally_def fst_set_map_set distinct_map_set)

lemma tally_other:
  assumes "k \<noteq> sk"
  shows "tally (ks @ [(sk, ek)]) k cls \<longleftrightarrow> tally ks k cls"
  using assms by (simp add: tally_def)

lemma tallies_step:
  assumes "tallies m ks"
  shows "tallies (updateStarClass sk ek m) (ks @ [(sk, ek)])"
proof -
  define old where
    "old = (case map_of m sk of None \<Rightarrow> \<lparr>occurrenceCount = 0, emptiesMap = []\<rparr> | Some sc \<Rightarrow> sc)"
  define new where
    "new = \<lparr>occurrenceCount = occurrenceCount old + 1,
      emptiesMap = map_set ek
        ((case map_of (emptiesMap old) ek of None \<Rightarrow> 0 | Some n \<Rightarrow> n) + 1) (emptiesMap old)\<rparr>"
  have upd: "updateStarClass sk ek m = map_set sk new m"
    by (simp add: updateStarClass_def Let_def old_def new_def)
  have "tally ks sk old"
  proof (cases "map_of m sk")
    case None
    then show ?thesis
      using tallies_None [OF assms None] by (simp add: old_def tally_fresh)
  next
    case (Some cls)
    then show ?thesis
      using tallies_Some [OF assms Some] by (simp add: old_def)
  qed
  then have new: "tally (ks @ [(sk, ek)]) sk new"
    unfolding new_def by (rule tally_same)
  have d: "distinct (map fst (map_set sk new m))"
    using assms by (intro distinct_map_set) (simp add: tallies_def)
  have "case map_of (map_set sk new m) k of
          None \<Rightarrow> k \<notin> fst ` set (ks @ [(sk, ek)])
        | Some cls \<Rightarrow> k \<in> fst ` set (ks @ [(sk, ek)]) \<and> tally (ks @ [(sk, ek)]) k cls" for k
  proof (cases "k = sk")
    case True
    then show ?thesis
      using new by (simp add: map_of_map_set)
  next
    case False
    show ?thesis
    proof (cases "map_of m k")
      case None
      then show ?thesis
        using tallies_None [OF assms None] False by (simp add: map_of_map_set)
    next
      case (Some cls)
      then show ?thesis
        using tallies_Some [OF assms Some] False by (simp add: map_of_map_set tally_other)
    qed
  qed
  with d show ?thesis
    unfolding upd tallies_def by blast
qed

definition applyKeys :: "(string \<times> string) list \<Rightarrow> StarClass jsmap \<Rightarrow> StarClass jsmap" where
  "applyKeys ks m = foldl (\<lambda>m k. updateStarClass (fst k) (snd k) m) m ks"

lemma tallies_applyKeys: "tallies m done \<Longrightarrow> tallies (applyKeys ks m) (done @ ks)"
proof (induction ks arbitrary: m "done")
  case Nil
  then show ?case by (simp add: applyKeys_def)
next
  case (Cons k ks)
  have "tallies (updateStarClass (fst k) (snd k) m) (done @ [(fst k, snd k)])"
    using Cons.prems by (rule tallies_step)
  from Cons.IH [OF this] show ?case
    by (simp add: applyKeys_def)
qed

subsection \<open>What a star pair canonicalizes to\<close>

definition pairStars :: "Pattern \<Rightarrow> Point list" where
  "pairStars p =
     (case canonicalizeStars (map pointOfCell (initial_stars p)) of
        Inr res \<Rightarrow> canonicalStars res
      | Inl e \<Rightarrow> [])"

definition pairEmpties :: "Pattern \<Rightarrow> Point list" where
  "pairEmpties p =
     (case canonicalizeStars (map pointOfCell (initial_stars p)) of
        Inr res \<Rightarrow>
          (case canonicalizeEmpties (map pointOfCell (forced_empty p)) (transformIndex res)
                  (translation res) of
             Inr es \<Rightarrow> es
           | Inl e \<Rightarrow> [])
      | Inl e \<Rightarrow> [])"

lemma canonicalizeStars_pair:
  assumes "length S = 2"
  shows "\<exists>t<8. canonicalizeStars S =
           Inr \<lparr>canonicalStars = place t S S, transformIndex = t, translation = corner t S\<rparr>"
proof -
  have "S \<noteq> []"
    using assms by auto
  from canonicalize_char [OF this, of "[]"] obtain t where "t < 8"
    and "canonicalize S [] = Inr \<lparr>canonicalStars = place t S S, transformIndex = t,
          translation = corner t S, canonicalCells = place t S []\<rparr>"
    by blast
  then show ?thesis
    using canonicalizeStars_canonicalize [OF assms, of "[]"] by auto
qed

lemma collectStarClasses_pair:
  assumes "\<forall>p\<in>set ps. length (initial_stars p) = 2"
  shows "collectStarClasses ps m =
     Inr (applyKeys (map (\<lambda>p. (pointsKey (pairStars p), pointsKey (pairEmpties p))) ps) m)"
  using assms
proof (induction ps arbitrary: m)
  case Nil
  then show ?case by (simp add: applyKeys_def)
next
  case (Cons p ps)
  let ?S = "map pointOfCell (initial_stars p)"
  have "length ?S = 2"
    using Cons.prems by simp
  from canonicalizeStars_pair [OF this] obtain t where t: "t < 8"
    and c: "canonicalizeStars ?S =
        Inr \<lparr>canonicalStars = place t ?S ?S, transformIndex = t, translation = corner t ?S\<rparr>"
    by blast
  have e: "canonicalizeEmpties (map pointOfCell (forced_empty p)) t (corner t ?S)
      = Inr (place t ?S (map pointOfCell (forced_empty p)))"
    using t by (rule canonicalizeEmpties_place)
  have "collectStarClasses (p # ps) m =
      collectStarClasses ps
        (updateStarClass (pointsKey (pairStars p)) (pointsKey (pairEmpties p)) m)"
    by (simp add: c e pairStars_def pairEmpties_def pointsKey_def)
  also have "\<dots> = Inr (applyKeys (map (\<lambda>p. (pointsKey (pairStars p), pointsKey (pairEmpties p))) ps)
        (updateStarClass (pointsKey (pairStars p)) (pointsKey (pairEmpties p)) m))"
    using Cons.prems by (intro Cons.IH) simp
  finally show ?case
    by (simp add: applyKeys_def)
qed


subsection \<open>What the second loop reports\<close>

definition pointsOfKey :: "string \<Rightarrow> Point list" where
  "pointsOfKey s = (case parsePoints s of Inr ps \<Rightarrow> ps | Inl e \<Rightarrow> [])"

lemma pointsOfKey_pointsKey: "pointsOfKey (pointsKey ps) = ps"
  by (simp add: pointsOfKey_def pointsKey_def parsePoints_stringify)

lemma parsePoints_pointsKey: "parsePoints (pointsKey ps) = Inr ps"
  by (simp add: pointsKey_def parsePoints_stringify)

definition isPure :: "int \<Rightarrow> StarClass \<Rightarrow> bool" where
  "isPure minOccurrences cls \<longleftrightarrow>
     length (emptiesMap cls) = 1 \<and> minOccurrences \<le> int (occurrenceCount cls)"

definition templateOf :: "string \<times> StarClass \<Rightarrow> PureEntanglementTemplate" where
  "templateOf e =
     \<lparr>canonical_stars = pointsOfKey (fst e),
      canonical_forced_empty = pointsOfKey (fst (emptiesMap (snd e) ! 0)),
      occurrences = occurrenceCount (snd e)\<rparr>"

definition keyed :: "string \<times> StarClass \<Rightarrow> bool" where
  "keyed e \<longleftrightarrow>
     fst e \<in> range pointsKey \<and> fst ` set (emptiesMap (snd e)) \<subseteq> range pointsKey"

lemma pureTemplates_keyed:
  assumes "\<forall>e\<in>set m. keyed e"
  shows "pureTemplates minOccurrences m
     = Inr (map templateOf (filter (\<lambda>e. isPure minOccurrences (snd e)) m))"
  using assms
proof (induction m)
  case Nil
  then show ?case by simp
next
  case (Cons e m)
  obtain sk cls where e: "e = (sk, cls)"
    by (cases e)
  have IH: "pureTemplates minOccurrences m
      = Inr (map templateOf (filter (\<lambda>e. isPure minOccurrences (snd e)) m))"
    using Cons by simp
  show ?case
  proof (cases "isPure minOccurrences cls")
    case False
    then show ?thesis
      using IH by (auto simp: e isPure_def Let_def)
  next
    case True
    then obtain x where em: "emptiesMap cls = [x]"
      unfolding isPure_def by (cases "emptiesMap cls") auto
    have "keyed (sk, cls)"
      using Cons.prems e by simp
    then obtain cs ce where k: "sk = pointsKey cs" "fst x = pointsKey ce"
      by (auto simp: keyed_def em)
    show ?thesis
      using True IH
      by (simp add: e isPure_def Let_def em k parsePoints_pointsKey templateOf_def
          pointsOfKey_pointsKey)
  qed
qed

definition keyOf :: "Point list \<times> Point list \<Rightarrow> string \<times> string" where
  "keyOf g = (pointsKey (fst g), pointsKey (snd g))"

lemma filter_keyOf:
  "filter (\<lambda>k. fst k = pointsKey cs) (map keyOf gs) = map keyOf (filter (\<lambda>g. fst g = cs) gs)"
  by (induction gs) (simp_all add: keyOf_def pointsKey_eq_iff)

lemma tally_keyOf:
  "tally (map keyOf gs) (pointsKey cs) cls \<longleftrightarrow>
     occurrenceCount cls = length (filter (\<lambda>g. fst g = cs) gs)
     \<and> distinct (map fst (emptiesMap cls))
     \<and> fst ` set (emptiesMap cls) = pointsKey ` snd ` set (filter (\<lambda>g. fst g = cs) gs)"
proof -
  have "snd ` set (map keyOf (filter (\<lambda>g. fst g = cs) gs))
      = pointsKey ` snd ` set (filter (\<lambda>g. fst g = cs) gs)"
    by (force simp: keyOf_def image_iff)
  then show ?thesis
    by (simp only: tally_def filter_keyOf length_map)
qed

lemma key_in_keyOf:
  "sk \<in> fst ` set (map keyOf gs) \<longleftrightarrow> (\<exists>cs. sk = pointsKey cs \<and> filter (\<lambda>g. fst g = cs) gs \<noteq> [])"
  by (force simp: keyOf_def image_iff filter_empty_conv)

lemma class_at:
  assumes "tallies m (map keyOf gs)" and "(sk, cls) \<in> set m"
  shows "\<exists>cs. sk = pointsKey cs \<and> filter (\<lambda>g. fst g = cs) gs \<noteq> []
           \<and> tally (map keyOf gs) (pointsKey cs) cls"
proof -
  have "distinct (map fst m)"
    using assms(1) by (simp add: tallies_def)
  then have "map_of m sk = Some cls"
    using assms(2) by simp
  from tallies_Some [OF assms(1) this] show ?thesis
    unfolding key_in_keyOf by blast
qed

lemma class_for:
  assumes "tallies m (map keyOf gs)" and "filter (\<lambda>g. fst g = cs) gs \<noteq> []"
  shows "\<exists>cls. (pointsKey cs, cls) \<in> set m \<and> tally (map keyOf gs) (pointsKey cs) cls"
proof -
  have in_keys: "pointsKey cs \<in> fst ` set (map keyOf gs)"
    unfolding key_in_keyOf using assms(2) by blast
  show ?thesis
  proof (cases "map_of m (pointsKey cs)")
    case None
    from tallies_None [OF assms(1) this] in_keys show ?thesis
      by simp
  next
    case (Some cls)
    from tallies_Some [OF assms(1) this] map_of_SomeD [OF Some] show ?thesis
      by blast
  qed
qed

lemma keyed_tallies:
  assumes "tallies m (map keyOf gs)" and "e \<in> set m"
  shows "keyed e"
proof -
  obtain sk cls where e: "e = (sk, cls)"
    by (cases e)
  from class_at [OF assms(1) assms(2) [unfolded e]] obtain cs where sk: "sk = pointsKey cs"
    and em: "fst ` set (emptiesMap cls) = pointsKey ` snd ` set (filter (\<lambda>g. fst g = cs) gs)"
    unfolding tally_keyOf by blast
  have "fst ` set (emptiesMap cls) \<subseteq> range pointsKey"
    unfolding em by blast
  then show ?thesis
    by (simp add: keyed_def e sk)
qed

lemma single_key:
  assumes "distinct (map fst em)" and "fst ` set em = pointsKey ` E"
  shows "length em = 1 \<and> pointsOfKey (fst (em ! 0)) = ce \<longleftrightarrow> E = {ce}"
proof
  assume l: "length em = 1 \<and> pointsOfKey (fst (em ! 0)) = ce"
  then obtain x where em: "em = [x]"
    by (cases em) auto
  have keys: "pointsKey ` E = {fst x}"
    using assms(2) em by simp
  then obtain c where c: "c \<in> E" "pointsKey c = fst x"
    by blast
  have "c = ce"
    using l c(2) [symmetric] by (simp add: em pointsOfKey_pointsKey)
  moreover have "c' = c" if "c' \<in> E" for c'
  proof -
    have "pointsKey c' \<in> {fst x}"
      using keys that by blast
    then have "pointsKey c' = pointsKey c"
      using c(2) by simp
    then show ?thesis
      by (simp only: pointsKey_eq_iff)
  qed
  ultimately show "E = {ce}"
    using c(1) by blast
next
  assume E: "E = {ce}"
  have "set (map fst em) = {pointsKey ce}"
    using assms(2) E by simp
  then have "card (set (map fst em)) = 1"
    by simp
  then have "length (map fst em) = 1"
    using distinct_card [OF assms(1)] by simp
  then obtain x where em: "em = [x]"
    by (cases em) auto
  have "fst x = pointsKey ce"
    using assms(2) E em by simp
  then show "length em = 1 \<and> pointsOfKey (fst (em ! 0)) = ce"
    by (simp add: em pointsOfKey_pointsKey)
qed

lemma templates_tallied:
  assumes "tallies m (map keyOf gs)"
  shows "\<lparr>canonical_stars = cs, canonical_forced_empty = ce, occurrences = k\<rparr>
           \<in> set (map templateOf (filter (\<lambda>e. isPure minOccurrences (snd e)) m))
     \<longleftrightarrow> k = length (filter (\<lambda>g. fst g = cs) gs)
         \<and> snd ` set (filter (\<lambda>g. fst g = cs) gs) = {ce}
         \<and> minOccurrences \<le> int k"
proof
  assume "\<lparr>canonical_stars = cs, canonical_forced_empty = ce, occurrences = k\<rparr>
           \<in> set (map templateOf (filter (\<lambda>e. isPure minOccurrences (snd e)) m))"
  then obtain sk cls where e: "(sk, cls) \<in> set m" "isPure minOccurrences cls"
    and t: "templateOf (sk, cls)
        = \<lparr>canonical_stars = cs, canonical_forced_empty = ce, occurrences = k\<rparr>"
    by auto
  from class_at [OF assms e(1)] obtain cs' where sk: "sk = pointsKey cs'"
    and ty: "tally (map keyOf gs) (pointsKey cs') cls"
    by blast
  have cs': "cs' = cs"
    using t by (simp add: templateOf_def sk pointsOfKey_pointsKey)
  have k: "occurrenceCount cls = k" 
    and ce: "pointsOfKey (fst (emptiesMap cls ! 0)) = ce"
    using t by (simp_all add: templateOf_def)
  have "snd ` set (filter (\<lambda>g. fst g = cs) gs) = {ce}"
    using single_key [of "emptiesMap cls" "snd ` set (filter (\<lambda>g. fst g = cs) gs)" ce]
      ty e(2) ce
    unfolding tally_keyOf cs' isPure_def by blast
  then show "k = length (filter (\<lambda>g. fst g = cs) gs)
         \<and> snd ` set (filter (\<lambda>g. fst g = cs) gs) = {ce}
         \<and> minOccurrences \<le> int k"
    using ty e(2) k unfolding tally_keyOf cs' isPure_def by simp
next
  assume R: "k = length (filter (\<lambda>g. fst g = cs) gs)
         \<and> snd ` set (filter (\<lambda>g. fst g = cs) gs) = {ce}
         \<and> minOccurrences \<le> int k"
  have "filter (\<lambda>g. fst g = cs) gs \<noteq> []"
  proof
    assume "filter (\<lambda>g. fst g = cs) gs = []"
    then have "snd ` set (filter (\<lambda>g. fst g = cs) gs) = {}"
      by (simp only: list.set image_empty)
    moreover have "snd ` set (filter (\<lambda>g. fst g = cs) gs) = {ce}"
      using R by (elim conjE)
    ultimately show False
      by (metis insert_not_empty)
  qed
  from class_for [OF assms this] obtain cls where e: "(pointsKey cs, cls) \<in> set m"
    and ty: "tally (map keyOf gs) (pointsKey cs) cls"
    by blast
  have one: "length (emptiesMap cls) = 1 \<and> pointsOfKey (fst (emptiesMap cls ! 0)) = ce"
    using single_key [of "emptiesMap cls" "snd ` set (filter (\<lambda>g. fst g = cs) gs)" ce]
      ty R
    unfolding tally_keyOf by blast
  have k: "occurrenceCount cls = k"
    using ty R unfolding tally_keyOf by simp
  have "isPure minOccurrences cls"
    using one k R by (simp add: isPure_def)
  moreover have "templateOf (pointsKey cs, cls)
      = \<lparr>canonical_stars = cs, canonical_forced_empty = ce, occurrences = k\<rparr>"
    using one k by (simp add: templateOf_def pointsOfKey_pointsKey)
  ultimately show "\<lparr>canonical_stars = cs, canonical_forced_empty = ce, occurrences = k\<rparr>
           \<in> set (map templateOf (filter (\<lambda>e. isPure minOccurrences (snd e)) m))"
    using e by force
qed

subsection \<open>The reported templates\<close>

definition geometry :: "Pattern \<Rightarrow> Point list \<times> Point list" where
  "geometry p = (pairStars p, pairEmpties p)"

lemma filter_geometry:
  "filter (\<lambda>g. fst g = cs) (map geometry ps) = map geometry (filter (\<lambda>p. pairStars p = cs) ps)"
  by (induction ps) (simp_all add: geometry_def)

lemma empties_geometry:
  "snd ` set (map geometry (filter (\<lambda>p. pairStars p = cs) ps))
     = pairEmpties ` {p \<in> set ps. pairStars p = cs}"
  by (force simp: geometry_def image_iff)

lemma pair_templates:
  assumes "\<forall>p\<in>set ps. length (initial_stars p) = 2"
  shows "\<exists>ts. collectStarClasses ps [] = Inr (applyKeys (map keyOf (map geometry ps)) [])
     \<and> pureTemplates minOccurrences (applyKeys (map keyOf (map geometry ps)) []) = Inr ts
     \<and> (\<forall>cs ce k. \<lparr>canonical_stars = cs, canonical_forced_empty = ce, occurrences = k\<rparr> \<in> set ts
          \<longleftrightarrow> k = length (filter (\<lambda>p. pairStars p = cs) ps)
              \<and> pairEmpties ` {p \<in> set ps. pairStars p = cs} = {ce}
              \<and> minOccurrences \<le> int k)"
proof -
  let ?m = "applyKeys (map keyOf (map geometry ps)) []"
  let ?ts = "map templateOf (filter (\<lambda>e. isPure minOccurrences (snd e)) ?m)"
  have keys: "map (\<lambda>p. (pointsKey (pairStars p), pointsKey (pairEmpties p))) ps
      = map keyOf (map geometry ps)"
    by (simp add: keyOf_def geometry_def)
  have c: "collectStarClasses ps [] = Inr ?m"
    using collectStarClasses_pair [OF assms, of "[]"] unfolding keys .
  have t: "tallies ?m (map keyOf (map geometry ps))"
    using tallies_applyKeys [OF tallies_empty, of "map keyOf (map geometry ps)"] by simp
  have "\<forall>e\<in>set ?m. keyed e"
    using keyed_tallies [OF t] by blast
  then have p: "pureTemplates minOccurrences ?m = Inr ?ts"
    by (rule pureTemplates_keyed)
  have "\<lparr>canonical_stars = cs, canonical_forced_empty = ce, occurrences = k\<rparr> \<in> set ?ts
          \<longleftrightarrow> k = length (filter (\<lambda>p. pairStars p = cs) ps)
              \<and> pairEmpties ` {p \<in> set ps. pairStars p = cs} = {ce}
              \<and> minOccurrences \<le> int k" for cs ce k
    unfolding templates_tallied [OF t] filter_geometry empties_geometry length_map ..
  with c p show ?thesis
    by blast
qed

text \<open>
  Claim C6. On patterns of two stars each, \<open>extractPureEntanglements\<close> returns, and its
  output holds a template of stars \<open>cs\<close>, forced-empty cells \<open>ce\<close> and \<open>occurrences = k\<close>
  if and only if exactly \<open>k\<close> input patterns canonicalize to the stars \<open>cs\<close>, the canonical
  forced-empty values of these patterns are the one value \<open>ce\<close> and no other, and
  \<open>k \<ge> minOccurrences\<close>.
\<close>

theorem pure_template_iff:
  assumes "\<forall>p\<in>set (patterns output). length (initial_stars p) = 2"
  shows "\<exists>out. extractPureEntanglements_pair localeCompare output minOccurrences = Inr out
     \<and> (\<forall>cs ce k.
          \<lparr>canonical_stars = cs, canonical_forced_empty = ce, occurrences = k\<rparr>
             \<in> set (pure_entanglement_templates out)
          \<longleftrightarrow> k = length (filter (\<lambda>p. pairStars p = cs) (patterns output))
              \<and> pairEmpties ` {p \<in> set (patterns output). pairStars p = cs} = {ce}
              \<and> minOccurrences \<le> int k)"
proof -
  from pair_templates [OF assms, of minOccurrences] obtain ts
    where c: "collectStarClasses (patterns output) []
        = Inr (applyKeys (map keyOf (map geometry (patterns output))) [])"
      and p: "pureTemplates minOccurrences
          (applyKeys (map keyOf (map geometry (patterns output))) []) = Inr ts"
      and m: "\<forall>cs ce k. \<lparr>canonical_stars = cs, canonical_forced_empty = ce, occurrences = k\<rparr>
            \<in> set ts
          \<longleftrightarrow> k = length (filter (\<lambda>p. pairStars p = cs) (patterns output))
              \<and> pairEmpties ` {p \<in> set (patterns output). pairStars p = cs} = {ce}
              \<and> minOccurrences \<le> int k"
    by blast
  have "extractPureEntanglements_pair localeCompare output minOccurrences
      = Inr \<lparr>pure_board_size = board_size output,
             pure_initial_stars = initial_star_count output,
             pure_entanglement_templates = sort_by (compareTemplates localeCompare) ts\<rparr>"
    unfolding extractPureEntanglements_pair_def c sum.case p by simp
  then show ?thesis
    using m by (simp add: set_sort_by)
qed

definition pair_example :: Output where
  "pair_example =
     \<lparr>board_size = 5, stars_per_row = 1, stars_per_column = 1, initial_star_count = 2,
      total_solutions = 0,
      patterns =
        [\<lparr>initial_stars = [\<lparr>row = 0, col = 0\<rparr>, \<lparr>row = 2, col = 2\<rparr>], compatible_solutions = 1,
          forced_empty = [\<lparr>row = 0, col = 1\<rparr>, \<lparr>row = 1, col = 0\<rparr>], forced_star = []\<rparr>,
         \<lparr>initial_stars = [\<lparr>row = 3, col = 3\<rparr>, \<lparr>row = 1, col = 1\<rparr>], compatible_solutions = 1,
          forced_empty = [\<lparr>row = 2, col = 1\<rparr>, \<lparr>row = 1, col = 2\<rparr>], forced_star = []\<rparr>,
         \<lparr>initial_stars = [\<lparr>row = 0, col = 0\<rparr>, \<lparr>row = 2, col = 3\<rparr>], compatible_solutions = 1,
          forced_empty = [\<lparr>row = 1, col = 1\<rparr>], forced_star = []\<rparr>,
         \<lparr>initial_stars = [\<lparr>row = 0, col = 1\<rparr>, \<lparr>row = 2, col = 4\<rparr>], compatible_solutions = 1,
          forced_empty = [\<lparr>row = 1, col = 3\<rparr>], forced_star = []\<rparr>]\<rparr>"

theorem pure_template_iff_witness:
  "\<exists>out. extractPureEntanglements_pair (\<lambda>a b. 0) pair_example 2 = Inr out
     \<and> \<lparr>canonical_stars = [(0, 0), (2, 2)], canonical_forced_empty = [(0, 1), (1, 0)],
         occurrences = 2\<rparr> \<in> set (pure_entanglement_templates out)
     \<and> \<lparr>canonical_stars = [(0, 0), (2, 3)], canonical_forced_empty = [(1, 1)],
         occurrences = 2\<rparr> \<notin> set (pure_entanglement_templates out)"
proof -
  have two: "\<forall>p\<in>set (patterns pair_example). length (initial_stars p) = 2"
    by (simp add: pair_example_def)
  have s: "map pairStars (patterns pair_example)
      = [[(0, 0), (2, 2)], [(0, 0), (2, 2)], [(0, 0), (2, 3)], [(0, 0), (2, 3)]]"
    by code_simp
  have e: "map pairEmpties (patterns pair_example)
      = [[(0, 1), (1, 0)], [(0, 1), (1, 0)], [(1, 1)], [(1, 2)]]"
    by code_simp
  obtain p1 p2 p3 p4 where ps: "patterns pair_example = [p1, p2, p3, p4]"
    by (simp add: pair_example_def)
  have s': "pairStars p1 = [(0, 0), (2, 2)]" "pairStars p2 = [(0, 0), (2, 2)]"
    "pairStars p3 = [(0, 0), (2, 3)]" "pairStars p4 = [(0, 0), (2, 3)]"
    using s unfolding ps by simp_all
  have e': "pairEmpties p1 = [(0, 1), (1, 0)]" "pairEmpties p2 = [(0, 1), (1, 0)]"
    "pairEmpties p3 = [(1, 1)]" "pairEmpties p4 = [(1, 2)]"
    using e unfolding ps by simp_all
  have g1: "{p \<in> set (patterns pair_example). pairStars p = [(0, 0), (2, 2)]} = {p1, p2}"
    unfolding ps using s' by auto
  have g2: "{p \<in> set (patterns pair_example). pairStars p = [(0, 0), (2, 3)]} = {p3, p4}"
    unfolding ps using s' by auto
  have a: "length (filter (\<lambda>p. pairStars p = [(0, 0), (2, 2)]) (patterns pair_example)) = 2"
    unfolding ps by (simp add: s')
  have b: "pairEmpties ` {p \<in> set (patterns pair_example). pairStars p = [(0, 0), (2, 2)]}
       = {[(0, 1), (1, 0)]}"
    unfolding g1 by (simp add: e')
  have c: "pairEmpties ` {p \<in> set (patterns pair_example). pairStars p = [(0, 0), (2, 3)]}
       \<noteq> {[(1, 1)]}"
    unfolding g2 by (simp add: e')
  from pure_template_iff [OF two, of "\<lambda>a b. 0" 2] obtain out
    where r: "extractPureEntanglements_pair (\<lambda>a b. 0) pair_example 2 = Inr out"
      and m: "\<And>cs ce k.
          \<lparr>canonical_stars = cs, canonical_forced_empty = ce, occurrences = k\<rparr>
             \<in> set (pure_entanglement_templates out)
          \<longleftrightarrow> k = length (filter (\<lambda>p. pairStars p = cs) (patterns pair_example))
              \<and> pairEmpties ` {p \<in> set (patterns pair_example). pairStars p = cs} = {ce}
              \<and> 2 \<le> int k"
    by blast
  have "\<lparr>canonical_stars = [(0, 0), (2, 2)], canonical_forced_empty = [(0, 1), (1, 0)],
         occurrences = 2\<rparr> \<in> set (pure_entanglement_templates out)"
    unfolding m a b by simp
  moreover have "\<lparr>canonical_stars = [(0, 0), (2, 3)], canonical_forced_empty = [(1, 1)],
         occurrences = 2\<rparr> \<notin> set (pure_entanglement_templates out)"
    unfolding m using c by simp
  ultimately show ?thesis
    using r by blast
qed

end
